theory Spec2Isabelle
  imports Complex_Main "HOL-Library.AList"
begin

section \<open>The logo updater of \<open>scripts/update-config-logos.py\<close>\<close>

text \<open>
  The script loads \<open>src/config.json\<close>, lists \<open>src/assets/logos\<close>, rewrites the
  \<open>logoUrl\<close> of every chapter whose expected logo file is present, and writes the
  document back. The model starts from the parsed document and the state of the logos
  directory, and returns the document that is written together with the three counters.
  Text printed to standard output is not modelled. Every definition keeps the name of the
  source construct it embeds.
\<close>

subsection \<open>Python strings\<close>

text \<open>
  A Python \<open>str\<close> is a sequence of Unicode code points, so a string is a list of
  natural numbers. \<open>ascii\<close> writes an ASCII literal.
\<close>

type_synonym pystr = "nat list"

definition ascii :: "string \<Rightarrow> pystr" where
  "ascii s = map of_char s"

abbreviation HYPHEN :: nat where "HYPHEN \<equiv> 45"
abbreviation DOT :: nat where "DOT \<equiv> 46"
abbreviation QMARK :: nat where "QMARK \<equiv> 63"
abbreviation NEWLINE :: nat where "NEWLINE \<equiv> 10"

text \<open>The character class \<open>[a-z0-9]\<close> of the first substitution.\<close>

definition is_alnum :: "nat \<Rightarrow> bool" where
  "is_alnum c = ((97 \<le> c \<and> c \<le> 122) \<or> (48 \<le> c \<and> c \<le> 57))"

text \<open>
  \<open>str.lower()\<close>. On ASCII it maps \<open>A-Z\<close> to \<open>a-z\<close>. Beyond ASCII it follows the
  Unicode tables of the interpreter, which are no part of the script: they are the
  parameter \<open>L\<close>, which receives the text before and after the code point because the
  mapping of U+03A3 depends on its context. Four code points are spelled out, since the
  script can tell them apart from the rest: U+0130 lowers to \<open>i\<close> followed by U+0307 and
  U+212A lowers to \<open>k\<close> (the only code points beyond ASCII whose lower case contains an
  ASCII letter or digit), and U+0131 and U+017F, which the case-insensitive search
  below accepts for \<open>i\<close> and \<open>s\<close>, are lower case already.
\<close>

type_synonym lower_table = "pystr \<Rightarrow> nat \<Rightarrow> pystr \<Rightarrow> pystr"

definition ascii_lower :: "nat \<Rightarrow> nat" where
  "ascii_lower c = (if 65 \<le> c \<and> c \<le> 90 then c + 32 else c)"

definition lower_cp :: "lower_table \<Rightarrow> pystr \<Rightarrow> nat \<Rightarrow> pystr \<Rightarrow> pystr" where
  "lower_cp L pre c post =
     (if c < 128 then [ascii_lower c]
      else if c = 0x130 then [0x69, 0x307]
      else if c = 0x131 \<or> c = 0x17F then [c]
      else if c = 0x212A then [0x6B]
      else L pre c post)"

fun lower_from :: "lower_table \<Rightarrow> pystr \<Rightarrow> pystr \<Rightarrow> pystr" where
  "lower_from L pre [] = []"
| "lower_from L pre (c # post) = lower_cp L pre c post @ lower_from L (pre @ [c]) post"

definition str_lower :: "lower_table \<Rightarrow> pystr \<Rightarrow> pystr" where
  "str_lower L s = lower_from L [] s"

text \<open>
  \<open>re.sub(r'X+', '-', s)\<close> for a character class \<open>X\<close>: every maximal run of
  characters of the class is replaced by one hyphen.
\<close>

function re_sub_runs :: "(nat \<Rightarrow> bool) \<Rightarrow> pystr \<Rightarrow> pystr" where
  "re_sub_runs X [] = []"
| "re_sub_runs X (c # cs) =
     (if X c then HYPHEN # re_sub_runs X (dropWhile X cs) else c # re_sub_runs X cs)"
  by pat_completeness auto
termination
  by (relation "measure (\<lambda>(X, s). length s)") (auto simp: le_imp_less_Suc length_dropWhile_le)

text \<open>\<open>s.strip('-')\<close>.\<close>

definition strip_hyphens :: "pystr \<Rightarrow> pystr" where
  "strip_hyphens s =
     rev (dropWhile (\<lambda>c. c = HYPHEN) (rev (dropWhile (\<lambda>c. c = HYPHEN) s)))"

subsection \<open>JSON values and errors\<close>

text \<open>
  What \<open>json.load\<close> returns: \<open>None\<close>, booleans, integers, floats, strings, lists and
  dictionaries. A dictionary keeps its keys in insertion order, so it is an association
  list; the lookup reads the first entry of a key and the assignment replaces it in
  place. A float is represented by its value (the tokens \<open>NaN\<close> and \<open>Infinity\<close> that
  \<open>json.load\<close> also accepts are left out); the script only tests a float for zero.
\<close>

datatype json =
    JNull
  | JBool bool
  | JInt int
  | JFloat real
  | JStr pystr
  | JArr "json list"
  | JObj "(pystr \<times> json) list"

datatype error = KeyError | AttributeError | TypeError | NotADirectoryError

text \<open>The truth value of an object, as \<open>if not x\<close> tests it.\<close>

fun truthy :: "json \<Rightarrow> bool" where
  "truthy JNull = False"
| "truthy (JBool b) = b"
| "truthy (JInt i) = (i \<noteq> 0)"
| "truthy (JFloat r) = (r \<noteq> 0)"
| "truthy (JStr s) = (s \<noteq> [])"
| "truthy (JArr xs) = (xs \<noteq> [])"
| "truthy (JObj kvs) = (kvs \<noteq> [])"

text \<open>\<open>d.get(k, default)\<close> on a dictionary.\<close>

definition dict_get :: "(pystr \<times> json) list \<Rightarrow> pystr \<Rightarrow> json \<Rightarrow> json" where
  "dict_get d k dflt = (case map_of d k of None \<Rightarrow> dflt | Some v \<Rightarrow> v)"

text \<open>
  What a \<open>for\<close> loop iterates over: the elements of a list, the keys of a dictionary, the
  characters of a string; any other value is not iterable.
\<close>

fun py_iter :: "json \<Rightarrow> error + json list" where
  "py_iter (JArr xs) = Inr xs"
| "py_iter (JObj kvs) = Inr (map (\<lambda>kv. JStr (fst kv)) kvs)"
| "py_iter (JStr s) = Inr (map (\<lambda>c. JStr [c]) s)"
| "py_iter _ = Inl TypeError"

subsection \<open>\<open>sanitize_filename\<close>\<close>

text \<open>
  Lines 15 to 22. \<open>sanitize_str\<close> is the body on a string; \<open>sanitize_filename\<close> is the
  function on any value: only a string has the method \<open>lower\<close>.
\<close>

definition sanitize_str :: "lower_table \<Rightarrow> pystr \<Rightarrow> pystr" where
  "sanitize_str L title =
     (let filename = str_lower L title;
          filename = re_sub_runs (\<lambda>c. \<not> is_alnum c) filename;
          filename = re_sub_runs (\<lambda>c. c = HYPHEN) filename;
          filename = strip_hyphens filename
      in take 50 filename)"

fun sanitize_filename :: "lower_table \<Rightarrow> json \<Rightarrow> error + pystr" where
  "sanitize_filename L (JStr title) = Inr (sanitize_str L title)"
| "sanitize_filename L _ = Inl AttributeError"

subsection \<open>\<open>get_extension_from_url\<close>\<close>

text \<open>
  A letter of the pattern under \<open>re.IGNORECASE\<close> matches itself, its ASCII capital and,
  as the documentation of \<open>re\<close> lists, four code points beyond ASCII: U+0130 and U+0131
  for \<open>i\<close>, U+017F for \<open>s\<close>, U+212A for \<open>k\<close>.
\<close>

definition ci_match :: "nat \<Rightarrow> nat \<Rightarrow> bool" where
  "ci_match l c =
     (ascii_lower c = l
      \<or> (l = 0x69 \<and> (c = 0x130 \<or> c = 0x131))
      \<or> (l = 0x73 \<and> c = 0x17F)
      \<or> (l = 0x6B \<and> c = 0x212A))"

text \<open>The alternatives \<open>jpg|jpeg|png|svg|gif|webp\<close>, in the order of the pattern.\<close>

definition ext_words :: "pystr list" where
  "ext_words = [ascii ''jpg'', ascii ''jpeg'', ascii ''png'', ascii ''svg'', ascii ''gif'',
     ascii ''webp'']"

text \<open>
  The group \<open>(\<close>\<^verbatim>\<open>\?\<close>\<open>|$)\<close> at the rest \<open>r\<close> of the string: a question mark, or \<open>$\<close>,
  which without \<open>re.MULTILINE\<close> matches at the end of the string and also just before
  a newline that is the last character.
\<close>

definition query_or_end :: "pystr \<Rightarrow> bool" where
  "query_or_end r = (case r of [] \<Rightarrow> True | c # cs \<Rightarrow> c = QMARK \<or> (c = NEWLINE \<and> cs = []))"

text \<open>
  The pattern after its leading dot, at the rest \<open>r\<close>: the alternatives are tried in
  order, and the first one that matches and is followed by \<open>query_or_end\<close> gives group 1.
\<close>

fun match_alts :: "pystr list \<Rightarrow> pystr \<Rightarrow> pystr option" where
  "match_alts [] r = None"
| "match_alts (w # ws) r =
     (if length w \<le> length r \<and> list_all2 ci_match w (take (length w) r)
         \<and> query_or_end (drop (length w) r)
      then Some (take (length w) r) else match_alts ws r)"

text \<open>\<open>re.search\<close>: the match at the leftmost position where the pattern matches.\<close>

fun re_search :: "pystr \<Rightarrow> pystr option" where
  "re_search [] = None"
| "re_search (c # r) =
     (if c = DOT then (case match_alts ext_words r of Some g \<Rightarrow> Some g | None \<Rightarrow> re_search r)
      else re_search r)"

text \<open>
  Lines 25 to 35. \<open>url_extension\<close> is the search and its two outcomes on a string;
  \<open>get_extension_from_url\<close> is the function on any value: a false value gives the
  default, and \<open>re.search\<close> accepts only a string.
\<close>

definition url_extension :: "lower_table \<Rightarrow> pystr \<Rightarrow> pystr" where
  "url_extension L u =
     (case re_search u of
        Some g \<Rightarrow> DOT # str_lower L g
      | None \<Rightarrow> ascii ''.png'')"

definition get_extension_from_url :: "lower_table \<Rightarrow> json \<Rightarrow> error + pystr" where
  "get_extension_from_url L url =
     (if \<not> truthy url then Inr (ascii ''.png'')
      else case url of
        JStr u \<Rightarrow> Inr (url_extension L u)
      | _ \<Rightarrow> Inl TypeError)"

subsection \<open>The inventory of downloaded logos\<close>

text \<open>
  Lines 43 to 48. The path \<open>src/assets/logos\<close> is absent, or is not a directory (then
  \<open>os.listdir\<close> raises), or is a directory with the listed names.
\<close>

datatype logos_dir = Absent | NotADirectory | Directory "pystr list"

definition startswith_dot :: "pystr \<Rightarrow> bool" where
  "startswith_dot filename = (case filename of [] \<Rightarrow> False | c # cs \<Rightarrow> c = DOT)"

definition downloaded_logos :: "logos_dir \<Rightarrow> error + (pystr \<rightharpoonup> bool)" where
  "downloaded_logos d =
     (case d of
        Absent \<Rightarrow> Inr Map.empty
      | NotADirectory \<Rightarrow> Inl NotADirectoryError
      | Directory names \<Rightarrow>
          Inr (fold (\<lambda>filename logos. if startswith_dot filename then logos
                                       else logos(filename \<mapsto> True))
                 names Map.empty))"

subsection \<open>The update loop\<close>

record counters =
  updated_count :: nat
  skipped_count :: nat
  missing_count :: nat

definition zero_counters :: counters where
  "zero_counters = \<lparr>updated_count = 0, skipped_count = 0, missing_count = 0\<rparr>"

definition k_chapters :: pystr where "k_chapters = ascii ''chapters''"
definition k_title :: pystr where "k_title = ascii ''title''"
definition k_logoUrl :: pystr where "k_logoUrl = ascii ''logoUrl''"

definition local_path :: "pystr \<Rightarrow> pystr" where
  "local_path expected_filename = ascii ''assets/logos/'' @ expected_filename"

text \<open>
  The body of the loop, lines 60 to 87, on one element and the counters. Only a
  dictionary has the method \<open>get\<close>.
\<close>

fun update_chapter ::
  "lower_table \<Rightarrow> (pystr \<rightharpoonup> bool) \<Rightarrow> json \<Rightarrow> counters \<Rightarrow> error + (json \<times> counters)" where
  "update_chapter L logos (JObj chapter) n =
     (let title = dict_get chapter k_title (JStr []);
          original_url = dict_get chapter k_logoUrl (JStr [])
      in if \<not> truthy original_url
         then Inr (JObj chapter, n\<lparr>skipped_count := skipped_count n + 1\<rparr>)
         else
           (case sanitize_filename L title of
              Inl e \<Rightarrow> Inl e
            | Inr base_name \<Rightarrow>
               (case get_extension_from_url L original_url of
                  Inl e \<Rightarrow> Inl e
                | Inr extension \<Rightarrow>
                   (let expected_filename = base_name @ extension in
                    if logos expected_filename \<noteq> None
                    then Inr (JObj (AList.update k_logoUrl
                                      (JStr (local_path expected_filename)) chapter),
                              n\<lparr>updated_count := updated_count n + 1\<rparr>)
                    else Inr (JObj chapter, n\<lparr>missing_count := missing_count n + 1\<rparr>)))))"
| "update_chapter L logos _ n = Inl AttributeError"

text \<open>The loop of line 59 over the elements; an exception ends it.\<close>

fun update_chapters ::
  "lower_table \<Rightarrow> (pystr \<rightharpoonup> bool) \<Rightarrow> json list \<Rightarrow> counters
    \<Rightarrow> error + (json list \<times> counters)" where
  "update_chapters L logos [] n = Inr ([], n)"
| "update_chapters L logos (chapter # rest) n =
     (case update_chapter L logos chapter n of
        Inl e \<Rightarrow> Inl e
      | Inr (chapter', n') \<Rightarrow>
         (case update_chapters L logos rest n' of
            Inl e \<Rightarrow> Inl e
          | Inr (rest', n'') \<Rightarrow> Inr (chapter' # rest', n'')))"

text \<open>
  The chapters are changed in place, so a list under \<open>chapters\<close> holds the updated
  elements afterwards; a dictionary or a string under \<open>chapters\<close> is itself untouched.
\<close>

fun store_chapters :: "json \<Rightarrow> json list \<Rightarrow> json" where
  "store_chapters (JArr xs) items = JArr items"
| "store_chapters v items = v"

text \<open>
  Lines 53 to 87 on the loaded document: \<open>config['chapters']\<close> needs a dictionary
  with that key.
\<close>

definition update_config ::
  "lower_table \<Rightarrow> (pystr \<rightharpoonup> bool) \<Rightarrow> json \<Rightarrow> error + (json \<times> counters)" where
  "update_config L logos config =
     (case config of
        JObj cfg \<Rightarrow>
          (case map_of cfg k_chapters of
             None \<Rightarrow> Inl KeyError
           | Some chapters \<Rightarrow>
               (case py_iter chapters of
                  Inl e \<Rightarrow> Inl e
                | Inr items \<Rightarrow>
                    (case update_chapters L logos items zero_counters of
                       Inl e \<Rightarrow> Inl e
                     | Inr (items', n) \<Rightarrow>
                         Inr (JObj (AList.update k_chapters (store_chapters chapters items') cfg),
                              n))))
      | _ \<Rightarrow> Inl TypeError)"

text \<open>The script: the inventory is built first, then the document is updated.\<close>

definition script :: "lower_table \<Rightarrow> logos_dir \<Rightarrow> json \<Rightarrow> error + (json \<times> counters)" where
  "script L d config =
     (case downloaded_logos d of
        Inl e \<Rightarrow> Inl e
      | Inr logos \<Rightarrow> update_config L logos config)"

subsection \<open>Notions the properties are stated with\<close>

text \<open>The chapters of a document, and the strings found under \<open>logoUrl\<close> in them.\<close>

definition config_chapters :: "json \<Rightarrow> json list" where
  "config_chapters config =
     (case config of
        JObj cfg \<Rightarrow> (case map_of cfg k_chapters of Some (JArr items) \<Rightarrow> items | _ \<Rightarrow> [])
      | _ \<Rightarrow> [])"

definition chapter_logo_url :: "json \<Rightarrow> pystr list" where
  "chapter_logo_url x =
     (case x of
        JObj ch \<Rightarrow> (case map_of ch k_logoUrl of Some (JStr u) \<Rightarrow> [u] | _ \<Rightarrow> [])
      | _ \<Rightarrow> [])"

definition logo_urls :: "json \<Rightarrow> pystr list" where
  "logo_urls config = concat (map chapter_logo_url (config_chapters config))"

text \<open>
  The resolver as the specification words it: an extension token is one of the six
  words, matched without regard to case, after a dot and immediately before the end of
  the string or a question mark; the leftmost token counts. \<open>spec_search\<close> differs from
  \<open>re_search\<close> only in \<open>spec_tail\<close>, which knows nothing of a final newline.
\<close>

definition spec_tail :: "pystr \<Rightarrow> bool" where
  "spec_tail r = (case r of [] \<Rightarrow> True | c # cs \<Rightarrow> c = QMARK)"

fun spec_alts :: "pystr list \<Rightarrow> pystr \<Rightarrow> pystr option" where
  "spec_alts [] r = None"
| "spec_alts (w # ws) r =
     (if length w \<le> length r \<and> list_all2 ci_match w (take (length w) r)
         \<and> spec_tail (drop (length w) r)
      then Some (take (length w) r) else spec_alts ws r)"

fun spec_search :: "pystr \<Rightarrow> pystr option" where
  "spec_search [] = None"
| "spec_search (c # r) =
     (if c = DOT then (case spec_alts ext_words r of Some g \<Rightarrow> Some g | None \<Rightarrow> spec_search r)
      else spec_search r)"

definition is_ext_token :: "pystr \<Rightarrow> bool" where
  "is_ext_token g = list_ex (\<lambda>w. list_all2 ci_match w g) ext_words"

text \<open>Two consecutive hyphens somewhere in a string.\<close>

fun double_hyphen :: "pystr \<Rightarrow> bool" where
  "double_hyphen (a # b # cs) = ((a = HYPHEN \<and> b = HYPHEN) \<or> double_hyphen (b # cs))"
| "double_hyphen cs = False"

subsection \<open>The example scenarios\<close>

text \<open>
  A table for \<open>str.lower\<close> that leaves a code point as it is; the examples below
  contain no code point at which the table is consulted.
\<close>

definition plain_table :: lower_table where
  "plain_table pre c post = [c]"

text \<open>
  A logos directory with a hidden file, and a document with the three chapters of the
  example scenarios: one whose logo is present, one without a URL, one whose logo is
  missing.
\<close>

definition example_dir :: logos_dir where
  "example_dir = Directory [ascii ''.hidden.png'', ascii ''chapter-one-intro.png'']"

definition example_logos :: "pystr \<rightharpoonup> bool" where
  "example_logos = [ascii ''chapter-one-intro.png'' \<mapsto> True]"

definition chapter_one :: json where
  "chapter_one = JObj [(ascii ''id'', JInt 1),
     (ascii ''title'', JStr (ascii ''Chapter One: Intro!'')),
     (ascii ''logoUrl'', JStr (ascii ''https://x.com/a.PNG''))]"

definition chapter_one_updated :: json where
  "chapter_one_updated = JObj [(ascii ''id'', JInt 1),
     (ascii ''title'', JStr (ascii ''Chapter One: Intro!'')),
     (ascii ''logoUrl'', JStr (ascii ''assets/logos/chapter-one-intro.png''))]"

definition chapter_two :: json where
  "chapter_two = JObj [(ascii ''id'', JInt 2),
     (ascii ''title'', JStr (ascii ''??'')),
     (ascii ''logoUrl'', JStr [])]"

definition chapter_three :: json where
  "chapter_three = JObj [(ascii ''id'', JInt 3),
     (ascii ''title'', JStr (ascii ''Foo Bar'')),
     (ascii ''logoUrl'', JStr (ascii ''https://cdn.x/img.svg?v=2''))]"

definition example_config :: json where
  "example_config = JObj [(ascii ''name'', JStr (ascii ''demo'')),
     (ascii ''chapters'', JArr [chapter_one, chapter_two, chapter_three])]"

definition example_config_updated :: json where
  "example_config_updated = JObj [(ascii ''name'', JStr (ascii ''demo'')),
     (ascii ''chapters'', JArr [chapter_one_updated, chapter_two, chapter_three])]"

definition example_counters :: counters where
  "example_counters = \<lparr>updated_count = 1, skipped_count = 1, missing_count = 1\<rparr>"

text \<open>
  A chapter whose URL spells the extension \<open>gif\<close> with U+0130, the capital I with a dot
  above, and an inventory with two logos for its title \<open>x\<close>; the document after one
  run and after two.
\<close>

definition dotted_logos :: "pystr \<rightharpoonup> bool" where
  "dotted_logos = [ascii ''x.g'' @ [0x69, 0x307] @ ascii ''f'' \<mapsto> True,
     ascii ''x.png'' \<mapsto> True]"

definition dotted_config :: json where
  "dotted_config = JObj [(ascii ''chapters'', JArr [JObj [
     (ascii ''title'', JStr (ascii ''x'')),
     (ascii ''logoUrl'', JStr (ascii ''http://a/b.g'' @ [0x130] @ ascii ''f''))]])]"

definition dotted_config_once :: json where
  "dotted_config_once = JObj [(ascii ''chapters'', JArr [JObj [
     (ascii ''title'', JStr (ascii ''x'')),
     (ascii ''logoUrl'',
        JStr (ascii ''assets/logos/x.g'' @ [0x69, 0x307] @ ascii ''f''))]])]"

definition dotted_config_twice :: json where
  "dotted_config_twice = JObj [(ascii ''chapters'', JArr [JObj [
     (ascii ''title'', JStr (ascii ''x'')),
     (ascii ''logoUrl'', JStr (ascii ''assets/logos/x.png''))]])]"

definition one_updated :: counters where
  "one_updated = \<lparr>updated_count = 1, skipped_count = 0, missing_count = 0\<rparr>"

text \<open>
  A chapter whose URL has U+0130 in the host name only, with its logo in the inventory,
  and the document after a run.
\<close>

definition host_logos :: "pystr \<rightharpoonup> bool" where
  "host_logos = [ascii ''istanbul.png'' \<mapsto> True]"

definition host_url :: pystr where
  "host_url = ascii ''http://'' @ [0x130] @ ascii ''stanbul.example/logo.png''"

definition host_config :: json where
  "host_config = JObj [(ascii ''chapters'', JArr [JObj [
     (ascii ''title'', JStr (ascii ''Istanbul'')),
     (ascii ''logoUrl'', JStr host_url)]])]"

definition host_config_updated :: json where
  "host_config_updated = JObj [(ascii ''chapters'', JArr [JObj [
     (ascii ''title'', JStr (ascii ''Istanbul'')),
     (ascii ''logoUrl'', JStr (ascii ''assets/logos/istanbul.png''))]])]"

section \<open>Evaluation of the examples\<close>

lemmas str_defs = ascii_def is_alnum_def ascii_lower_def lower_cp_def str_lower_def
  strip_hyphens_def sanitize_str_def ci_match_def ext_words_def query_or_end_def
  url_extension_def

lemmas run_defs = dict_get_def k_title_def k_logoUrl_def k_chapters_def
  get_extension_from_url_def local_path_def Let_def

lemma example_logos_eq: "downloaded_logos example_dir = Inr example_logos"
  by (simp add: downloaded_logos_def example_dir_def example_logos_def startswith_dot_def
      ascii_def)

lemma step_one: "update_chapter L example_logos chapter_one n
   = Inr (chapter_one_updated, n\<lparr>updated_count := updated_count n + 1\<rparr>)"
  by (auto simp add: chapter_one_def chapter_one_updated_def example_logos_def run_defs str_defs)

lemma step_two: "update_chapter L example_logos chapter_two n
   = Inr (chapter_two, n\<lparr>skipped_count := skipped_count n + 1\<rparr>)"
  by (simp add: chapter_two_def run_defs str_defs)

lemma step_three: "update_chapter L example_logos chapter_three n
   = Inr (chapter_three, n\<lparr>missing_count := missing_count n + 1\<rparr>)"
  by (simp add: chapter_three_def example_logos_def run_defs str_defs)

lemma example_run:
  "update_config L example_logos example_config = Inr (example_config_updated, example_counters)"
  by (simp add: update_config_def example_config_def example_config_updated_def
      step_one step_two step_three zero_counters_def example_counters_def k_chapters_def
      ascii_def)

lemma example_script:
  "script L example_dir example_config = Inr (example_config_updated, example_counters)"
  by (simp add: script_def example_logos_eq example_run)

lemma example_chapters:
  "config_chapters example_config = [chapter_one, chapter_two, chapter_three]"
  by (simp add: config_chapters_def example_config_def k_chapters_def ascii_def)

lemma example_chapters_updated:
  "config_chapters example_config_updated = [chapter_one_updated, chapter_two, chapter_three]"
  by (simp add: config_chapters_def example_config_updated_def k_chapters_def ascii_def)

section \<open>The loop\<close>

lemma update_chapter_cases:
  assumes "update_chapter L logos x n = Inr (x', n')"
  shows "\<exists>chapter. x = JObj chapter \<and>
      ((\<not> truthy (dict_get chapter k_logoUrl (JStr [])) \<and> x' = x
          \<and> n' = n\<lparr>skipped_count := skipped_count n + 1\<rparr>)
       \<or> (\<exists>t u. dict_get chapter k_title (JStr []) = JStr t
             \<and> map_of chapter k_logoUrl = Some (JStr u) \<and> u \<noteq> []
             \<and> ((logos (sanitize_str L t @ url_extension L u) \<noteq> None
                   \<and> x' = JObj (AList.update k_logoUrl
                        (JStr (local_path (sanitize_str L t @ url_extension L u))) chapter)
                   \<and> n' = n\<lparr>updated_count := updated_count n + 1\<rparr>)
                \<or> (logos (sanitize_str L t @ url_extension L u) = None \<and> x' = x
                   \<and> n' = n\<lparr>missing_count := missing_count n + 1\<rparr>))))"
proof (cases x)
  case (JObj ch)
  show ?thesis
  proof (cases "truthy (dict_get ch k_logoUrl (JStr []))")
    case False
    with assms JObj show ?thesis by (auto simp add: Let_def)
  next
    case True
    from assms JObj True obtain t where t: "dict_get ch k_title (JStr []) = JStr t"
      by (cases "dict_get ch k_title (JStr [])") (simp_all add: Let_def)
    from assms JObj True t obtain u where u: "dict_get ch k_logoUrl (JStr []) = JStr u"
      by (cases "dict_get ch k_logoUrl (JStr [])")
         (simp_all add: Let_def get_extension_from_url_def)
    from True u have ne: "u \<noteq> []" by simp
    from u ne have m: "map_of ch k_logoUrl = Some (JStr u)"
      by (auto simp: dict_get_def split: option.splits)
    from assms JObj t u ne m show ?thesis
      by (auto simp add: Let_def get_extension_from_url_def split: if_splits)
  qed
qed (use assms in simp_all)

lemma update_chapter_skipped:
  "\<not> truthy (dict_get chapter k_logoUrl (JStr [])) \<Longrightarrow>
   update_chapter L logos (JObj chapter) n
     = Inr (JObj chapter, n\<lparr>skipped_count := skipped_count n + 1\<rparr>)"
  by (simp add: Let_def)

lemma update_chapter_string:
  "dict_get chapter k_title (JStr []) = JStr t \<Longrightarrow>
   dict_get chapter k_logoUrl (JStr []) = JStr u \<Longrightarrow> u \<noteq> [] \<Longrightarrow>
   update_chapter L logos (JObj chapter) n =
     (let expected_filename = sanitize_str L t @ url_extension L u in
      if logos expected_filename \<noteq> None
      then Inr (JObj (AList.update k_logoUrl (JStr (local_path expected_filename)) chapter),
                n\<lparr>updated_count := updated_count n + 1\<rparr>)
      else Inr (JObj chapter, n\<lparr>missing_count := missing_count n + 1\<rparr>))"
  by (simp add: Let_def get_extension_from_url_def)

lemma update_chapters_length:
  "update_chapters L logos xs n = Inr (xs', n') \<Longrightarrow> length xs' = length xs"
  by (induction xs arbitrary: n xs' n') (auto split: sum.splits prod.splits)

lemma update_chapters_nth:
  "update_chapters L logos xs n = Inr (xs', n') \<Longrightarrow> i < length xs \<Longrightarrow>
     \<exists>m m'. update_chapter L logos (xs ! i) m = Inr (xs' ! i, m')"
proof (induction xs arbitrary: n xs' n' i)
  case Nil
  then show ?case by simp
next
  case (Cons x xs)
  show ?case
  proof (cases i)
    case 0
    with Cons.prems show ?thesis
      by (auto split: sum.splits prod.splits intro: exI [of _ n])
  next
    case (Suc j)
    with Cons.prems Cons.IH show ?thesis
      by (auto split: sum.splits prod.splits)
  qed
qed

lemma update_chapter_sum:
  "update_chapter L logos x n = Inr (x', n') \<Longrightarrow>
   updated_count n' + missing_count n' + skipped_count n'
     = updated_count n + missing_count n + skipped_count n + 1"
  by (drule update_chapter_cases) auto

lemma update_chapters_sum:
  "update_chapters L logos xs n = Inr (xs', n') \<Longrightarrow>
   updated_count n' + missing_count n' + skipped_count n'
     = updated_count n + missing_count n + skipped_count n + length xs"
proof (induction xs arbitrary: n xs' n')
  case Nil
  then show ?case by simp
next
  case (Cons x xs)
  then show ?case
    by (auto split: sum.splits prod.splits dest!: update_chapter_sum)
qed

lemma update_chapters_strings:
  "update_chapters L logos (map (\<lambda>y. JStr (f y)) ys) n = Inr r \<Longrightarrow> ys = []"
  by (cases ys) (auto split: sum.splits)

lemma update_config_Inr:
  assumes "update_config L logos config = Inr (config', n)"
  shows "\<exists>cfg chapters items'. config = JObj cfg
     \<and> map_of cfg k_chapters = Some chapters
     \<and> update_chapters L logos (config_chapters config) zero_counters = Inr (items', n)
     \<and> config' = JObj (AList.update k_chapters (store_chapters chapters items') cfg)
     \<and> config_chapters config' = items'"
proof -
  from assms obtain cfg chapters items items' where
    h: "config = JObj cfg" "map_of cfg k_chapters = Some chapters"
       "py_iter chapters = Inr items"
       "update_chapters L logos items zero_counters = Inr (items', n)"
       "config' = JObj (AList.update k_chapters (store_chapters chapters items') cfg)"
    by (auto simp: update_config_def split: json.splits option.splits sum.splits prod.splits)
  have c': "config_chapters config'
      = (case store_chapters chapters items' of JArr xs \<Rightarrow> xs | _ \<Rightarrow> [])"
    by (simp add: h(5) config_chapters_def update_conv')
  show ?thesis
  proof (cases chapters)
    case (JArr xs)
    with h c' show ?thesis by (auto simp: config_chapters_def)
  next
    case (JObj kvs)
    with h have "kvs = []" using update_chapters_strings [of L logos fst kvs] by auto
    with h c' JObj show ?thesis by (auto simp: config_chapters_def)
  next
    case (JStr s)
    with h have "s = []" using update_chapters_strings [of L logos "\<lambda>c. [c]" s] by auto
    with h c' JStr show ?thesis by (auto simp: config_chapters_def)
  qed (use h in simp_all)
qed

section \<open>Properties of a run\<close>

text \<open>
  C7. Whenever the update of a document completes, the three counters add up to the
  number of chapters of the document.
\<close>

theorem counters_sum:
  assumes "update_config L logos config = Inr (config', n)"
  shows "updated_count n + missing_count n + skipped_count n
           = length (config_chapters config)"
proof -
  from update_config_Inr [OF assms] obtain items' where
    "update_chapters L logos (config_chapters config) zero_counters = Inr (items', n)"
    by blast
  from update_chapters_sum [OF this] show ?thesis
    by (simp add: zero_counters_def)
qed

theorem counters_sum_witness:
  "update_config plain_table example_logos example_config
      = Inr (example_config_updated, example_counters)
   \<and> updated_count example_counters + missing_count example_counters
        + skipped_count example_counters = 3"
  using counters_sum [OF example_run [of plain_table]]
  by (simp add: example_run example_chapters)

lemma dom_fold_logos:
  "dom (fold (\<lambda>filename logos. if startswith_dot filename then logos
                                  else logos(filename \<mapsto> True)) names m)
     = dom m \<union> {f \<in> set names. \<not> startswith_dot f}"
  by (induction names arbitrary: m) auto

lemma downloaded_logos_dom:
  assumes "downloaded_logos d = Inr logos"
  shows "\<forall>f. startswith_dot f \<longrightarrow> logos f = None"
proof (cases d)
  case Absent
  with assms show ?thesis by (auto simp: downloaded_logos_def)
next
  case NotADirectory
  with assms show ?thesis by (simp add: downloaded_logos_def)
next
  case (Directory names)
  with assms have "logos = fold (\<lambda>filename logos. if startswith_dot filename then logos
                                  else logos(filename \<mapsto> True)) names Map.empty"
    by (simp add: downloaded_logos_def)
  then have "dom logos = {f \<in> set names. \<not> startswith_dot f}"
    by (simp only: dom_fold_logos) simp
  then have "\<forall>f. startswith_dot f \<longrightarrow> f \<notin> dom logos" by blast
  then show ?thesis by (simp add: domIff)
qed

lemma url_extension_dot: "startswith_dot (url_extension L u)"
  by (simp add: url_extension_def startswith_dot_def ascii_def split: option.splits)

lemma update_split:
  "map_of al k = Some v0 \<Longrightarrow>
   \<exists>xs ys. al = xs @ (k, v0) # ys \<and> k \<notin> fst ` set xs
     \<and> AList.update k v al = xs @ (k, v) # ys"
proof (induction al)
  case Nil
  then show ?case by simp
next
  case (Cons a al)
  show ?case
  proof (cases "fst a = k")
    case True
    with Cons.prems have "a = (k, v0)" by (cases a) auto
    then have "a # al = [] @ (k, v0) # al \<and> k \<notin> fst ` set []
        \<and> AList.update k v (a # al) = [] @ (k, v) # al"
      by simp
    then show ?thesis by blast
  next
    case False
    with Cons.prems have "map_of al k = Some v0" by (cases a) auto
    from Cons.IH [OF this] obtain xs ys where
      h: "al = xs @ (k, v0) # ys" "k \<notin> fst ` set xs" "AList.update k v al = xs @ (k, v) # ys"
      by blast
    from False h have "a # al = (a # xs) @ (k, v0) # ys \<and> k \<notin> fst ` set (a # xs)
        \<and> AList.update k v (a # al) = (a # xs) @ (k, v) # ys"
      by (cases a) auto
    then show ?thesis by blast
  qed
qed

text \<open>
  C8. The inventory of an absent logos directory is empty and no error is raised; the
  inventory of a directory holds exactly the listed names that do not begin with a dot,
  so \<open>.hidden.png\<close> is not in it.
\<close>

theorem inventory_excludes_hidden:
  "downloaded_logos Absent = Inr Map.empty
   \<and> (\<exists>logos. downloaded_logos (Directory names) = Inr logos
         \<and> dom logos = {f \<in> set names. \<not> startswith_dot f}
         \<and> logos (ascii ''.hidden.png'') = None)"
proof -
  define logos where "logos = fold (\<lambda>filename logos. if startswith_dot filename then logos
                                  else logos(filename \<mapsto> True)) names Map.empty"
  have run: "downloaded_logos (Directory names) = Inr logos"
    by (simp add: downloaded_logos_def logos_def)
  have d: "dom logos = {f \<in> set names. \<not> startswith_dot f}"
    unfolding logos_def by (simp only: dom_fold_logos) simp
  have "startswith_dot (ascii ''.hidden.png'')"
    by (simp add: startswith_dot_def ascii_def)
  with d have "ascii ''.hidden.png'' \<notin> dom logos" by blast
  then have "logos (ascii ''.hidden.png'') = None" by (simp add: domIff)
  with run d have "\<exists>logos. downloaded_logos (Directory names) = Inr logos
         \<and> dom logos = {f \<in> set names. \<not> startswith_dot f}
         \<and> logos (ascii ''.hidden.png'') = None"
    by blast
  moreover have "downloaded_logos Absent = Inr Map.empty"
    by (simp add: downloaded_logos_def)
  ultimately show ?thesis by blast
qed

text \<open>
  C6. A chapter whose \<open>logoUrl\<close> is absent or the empty string is returned as it is,
  only the counter of skipped chapters is incremented, and the loop goes on with the
  next chapter; the title is not looked at, whatever it is.
\<close>

theorem empty_url_skipped:
  assumes "map_of chapter k_logoUrl = None \<or> map_of chapter k_logoUrl = Some (JStr [])"
  shows "update_chapter L logos (JObj chapter) n
           = Inr (JObj chapter, n\<lparr>skipped_count := skipped_count n + 1\<rparr>)
         \<and> update_chapters L logos (JObj chapter # rest) n
           = (case update_chapters L logos rest (n\<lparr>skipped_count := skipped_count n + 1\<rparr>) of
                Inl e \<Rightarrow> Inl e
              | Inr (rest', n') \<Rightarrow> Inr (JObj chapter # rest', n'))"
proof -
  from assms have "\<not> truthy (dict_get chapter k_logoUrl (JStr []))"
    by (auto simp: dict_get_def)
  then have "update_chapter L logos (JObj chapter) n
           = Inr (JObj chapter, n\<lparr>skipped_count := skipped_count n + 1\<rparr>)"
    by (rule update_chapter_skipped)
  then show ?thesis by simp
qed

theorem empty_url_skipped_witness:
  "map_of [(ascii ''title'', JNull), (ascii ''logoUrl'', JStr [])] k_logoUrl = Some (JStr [])
   \<and> update_chapter plain_table example_logos
        (JObj [(ascii ''title'', JNull), (ascii ''logoUrl'', JStr [])]) zero_counters
      = Inr (JObj [(ascii ''title'', JNull), (ascii ''logoUrl'', JStr [])],
             \<lparr>updated_count = 0, skipped_count = 1, missing_count = 0\<rparr>)"
proof -
  have h: "map_of [(ascii ''title'', JNull), (ascii ''logoUrl'', JStr [])] k_logoUrl
      = Some (JStr [])"
    by (simp add: k_logoUrl_def ascii_def)
  from empty_url_skipped [OF disjI2, OF h, of plain_table example_logos zero_counters "[]"] h
  show ?thesis by (simp add: zero_counters_def)
qed

text \<open>
  C10. With the inventory that the script builds, a chapter whose title sanitizes to the
  empty string and whose \<open>logoUrl\<close> is a non-empty string is never updated: its expected
  filename is the extension alone, which begins with a dot, so the chapter is returned
  as it is and counted as missing.
\<close>

theorem empty_base_name_missing:
  assumes "downloaded_logos d = Inr logos"
    and "dict_get chapter k_title (JStr []) = JStr t"
    and "sanitize_str L t = []"
    and "dict_get chapter k_logoUrl (JStr []) = JStr u"
    and "u \<noteq> []"
  shows "startswith_dot (sanitize_str L t @ url_extension L u)
         \<and> update_chapter L logos (JObj chapter) n
             = Inr (JObj chapter, n\<lparr>missing_count := missing_count n + 1\<rparr>)"
proof -
  have dot: "startswith_dot (sanitize_str L t @ url_extension L u)"
    using assms(3) by (simp add: url_extension_dot)
  with downloaded_logos_dom [OF assms(1)]
  have "logos (sanitize_str L t @ url_extension L u) = None" by blast
  with dot update_chapter_string [OF assms(2,4,5), of L logos n] show ?thesis
    by (simp add: Let_def)
qed

theorem empty_base_name_missing_witness:
  "downloaded_logos example_dir = Inr example_logos
   \<and> dict_get [(ascii ''title'', JStr (ascii ''??'')),
                (ascii ''logoUrl'', JStr (ascii ''https://x.com/a.PNG''))] k_title (JStr [])
       = JStr (ascii ''??'')
   \<and> sanitize_str plain_table (ascii ''??'') = []
   \<and> dict_get [(ascii ''title'', JStr (ascii ''??'')),
                (ascii ''logoUrl'', JStr (ascii ''https://x.com/a.PNG''))] k_logoUrl (JStr [])
       = JStr (ascii ''https://x.com/a.PNG'')
   \<and> ascii ''https://x.com/a.PNG'' \<noteq> []
   \<and> update_chapter plain_table example_logos
        (JObj [(ascii ''title'', JStr (ascii ''??'')),
               (ascii ''logoUrl'', JStr (ascii ''https://x.com/a.PNG''))]) zero_counters
      = Inr (JObj [(ascii ''title'', JStr (ascii ''??'')),
                   (ascii ''logoUrl'', JStr (ascii ''https://x.com/a.PNG''))],
             \<lparr>updated_count = 0, skipped_count = 0, missing_count = 1\<rparr>)"
proof -
  let ?ch = "[(ascii ''title'', JStr (ascii ''??'')),
              (ascii ''logoUrl'', JStr (ascii ''https://x.com/a.PNG''))]"
  have t: "dict_get ?ch k_title (JStr []) = JStr (ascii ''??'')"
    by (simp add: dict_get_def k_title_def ascii_def)
  have s: "sanitize_str plain_table (ascii ''??'') = []"
    by (simp add: str_defs)
  have u: "dict_get ?ch k_logoUrl (JStr []) = JStr (ascii ''https://x.com/a.PNG'')"
    by (simp add: dict_get_def k_logoUrl_def ascii_def)
  have ne: "ascii ''https://x.com/a.PNG'' \<noteq> []"
    by (simp add: ascii_def)
  from empty_base_name_missing [OF example_logos_eq t s u ne, of zero_counters]
  show ?thesis using example_logos_eq t s u ne by (simp add: zero_counters_def)
qed

text \<open>
  C3. In a run that completes, a chapter whose \<open>logoUrl\<close> is a non-empty string and
  whose expected filename is not in the inventory is the same in the written document,
  and the step of the loop on it increments the counter of missing logos only.
\<close>

theorem missing_logo_unchanged:
  assumes "update_config L logos config = Inr (config', n)"
    and "i < length (config_chapters config)"
    and "config_chapters config ! i = JObj chapter"
    and "dict_get chapter k_title (JStr []) = JStr t"
    and "dict_get chapter k_logoUrl (JStr []) = JStr u"
    and "u \<noteq> []"
    and "logos (sanitize_str L t @ url_extension L u) = None"
  shows "config_chapters config' ! i = JObj chapter
         \<and> dict_get chapter k_logoUrl (JStr []) = JStr u
         \<and> (\<forall>m. update_chapter L logos (JObj chapter) m
                  = Inr (JObj chapter, m\<lparr>missing_count := missing_count m + 1\<rparr>))"
proof -
  have step: "update_chapter L logos (JObj chapter) m
      = Inr (JObj chapter, m\<lparr>missing_count := missing_count m + 1\<rparr>)" for m
    using update_chapter_string [OF assms(4,5,6), of L logos m] assms(7)
    by (simp add: Let_def)
  from update_config_Inr [OF assms(1)] obtain items' where
    run: "update_chapters L logos (config_chapters config) zero_counters = Inr (items', n)"
    and out: "config_chapters config' = items'"
    by blast
  from update_chapters_nth [OF run assms(2)] assms(3) obtain m m' where
    "update_chapter L logos (JObj chapter) m = Inr (items' ! i, m')"
    by auto
  with step [of m] have "items' ! i = JObj chapter" by simp
  with out step assms(5) show ?thesis by simp
qed

theorem missing_logo_unchanged_witness:
  "update_config plain_table example_logos example_config
     = Inr (example_config_updated, example_counters)
   \<and> 2 < length (config_chapters example_config)
   \<and> config_chapters example_config ! 2 = chapter_three
   \<and> example_logos (sanitize_str plain_table (ascii ''Foo Bar'')
        @ url_extension plain_table (ascii ''https://cdn.x/img.svg?v=2'')) = None
   \<and> config_chapters example_config_updated ! 2 = chapter_three"
proof -
  let ?ch = "[(ascii ''id'', JInt 3), (ascii ''title'', JStr (ascii ''Foo Bar'')),
     (ascii ''logoUrl'', JStr (ascii ''https://cdn.x/img.svg?v=2''))]"
  have c: "chapter_three = JObj ?ch" by (simp add: chapter_three_def)
  have i: "2 < length (config_chapters example_config)"
    by (simp add: example_chapters)
  have x: "config_chapters example_config ! 2 = JObj ?ch"
    by (simp add: example_chapters c)
  have t: "dict_get ?ch k_title (JStr []) = JStr (ascii ''Foo Bar'')"
    by (simp add: dict_get_def k_title_def ascii_def)
  have u: "dict_get ?ch k_logoUrl (JStr []) = JStr (ascii ''https://cdn.x/img.svg?v=2'')"
    by (simp add: dict_get_def k_logoUrl_def ascii_def)
  have ne: "ascii ''https://cdn.x/img.svg?v=2'' \<noteq> []"
    by (simp add: ascii_def)
  have absent: "example_logos (sanitize_str plain_table (ascii ''Foo Bar'')
        @ url_extension plain_table (ascii ''https://cdn.x/img.svg?v=2'')) = None"
    by (simp add: example_logos_def str_defs)
  from missing_logo_unchanged [OF example_run i x t u ne absent]
  show ?thesis using example_run i x absent c by simp
qed

text \<open>
  C2. In a run that completes, a chapter whose \<open>logoUrl\<close> is a non-empty string and
  whose expected filename, the sanitized title followed by the extension of the URL, is
  in the inventory has \<open>assets/logos/\<close> followed by that filename as its \<open>logoUrl\<close>
  in the written document. The chapter titled \<open>Chapter One: Intro!\<close> with the URL
  \<open>https://x.com/a.PNG\<close> gets \<open>assets/logos/chapter-one-intro.png\<close> when
  \<open>chapter-one-intro.png\<close> is in the inventory.
\<close>

theorem present_logo_rewritten:
  assumes "update_config L logos config = Inr (config', n)"
    and "i < length (config_chapters config)"
    and "config_chapters config ! i = JObj chapter"
    and "dict_get chapter k_title (JStr []) = JStr t"
    and "dict_get chapter k_logoUrl (JStr []) = JStr u"
    and "u \<noteq> []"
    and "logos (sanitize_str L t @ url_extension L u) \<noteq> None"
  shows "(\<exists>chapter'. config_chapters config' ! i = JObj chapter'
            \<and> dict_get chapter' k_logoUrl (JStr [])
                = JStr (ascii ''assets/logos/'' @ sanitize_str L t @ url_extension L u))
         \<and> sanitize_str L (ascii ''Chapter One: Intro!'')
              @ url_extension L (ascii ''https://x.com/a.PNG'') = ascii ''chapter-one-intro.png''
         \<and> update_chapter L [ascii ''chapter-one-intro.png'' \<mapsto> True]
              (JObj [(ascii ''title'', JStr (ascii ''Chapter One: Intro!'')),
                     (ascii ''logoUrl'', JStr (ascii ''https://x.com/a.PNG''))]) n
            = Inr (JObj [(ascii ''title'', JStr (ascii ''Chapter One: Intro!'')),
                         (ascii ''logoUrl'', JStr (ascii ''assets/logos/chapter-one-intro.png''))],
                   n\<lparr>updated_count := updated_count n + 1\<rparr>)"
proof -
  let ?e = "sanitize_str L t @ url_extension L u"
  let ?new = "AList.update k_logoUrl (JStr (local_path ?e)) chapter"
  have step: "update_chapter L logos (JObj chapter) m
      = Inr (JObj ?new, m\<lparr>updated_count := updated_count m + 1\<rparr>)" for m
    using update_chapter_string [OF assms(4,5,6), of L logos m] assms(7)
    by (simp add: Let_def)
  from update_config_Inr [OF assms(1)] obtain items' where
    run: "update_chapters L logos (config_chapters config) zero_counters = Inr (items', n)"
    and out: "config_chapters config' = items'"
    by blast
  from update_chapters_nth [OF run assms(2)] assms(3) obtain m m' where
    "update_chapter L logos (JObj chapter) m = Inr (items' ! i, m')"
    by auto
  with step [of m] have "items' ! i = JObj ?new" by simp
  moreover have "dict_get ?new k_logoUrl (JStr []) = JStr (ascii ''assets/logos/'' @ ?e)"
    by (simp add: dict_get_def update_conv' local_path_def)
  ultimately have general: "\<exists>chapter'. config_chapters config' ! i = JObj chapter'
            \<and> dict_get chapter' k_logoUrl (JStr []) = JStr (ascii ''assets/logos/'' @ ?e)"
    using out by blast
  have name: "sanitize_str L (ascii ''Chapter One: Intro!'')
              @ url_extension L (ascii ''https://x.com/a.PNG'') = ascii ''chapter-one-intro.png''"
    by (simp add: str_defs)
  have example: "update_chapter L [ascii ''chapter-one-intro.png'' \<mapsto> True]
              (JObj [(ascii ''title'', JStr (ascii ''Chapter One: Intro!'')),
                     (ascii ''logoUrl'', JStr (ascii ''https://x.com/a.PNG''))]) n
            = Inr (JObj [(ascii ''title'', JStr (ascii ''Chapter One: Intro!'')),
                         (ascii ''logoUrl'', JStr (ascii ''assets/logos/chapter-one-intro.png''))],
                   n\<lparr>updated_count := updated_count n + 1\<rparr>)"
    by (auto simp add: run_defs str_defs)
  from general name example show ?thesis by blast
qed

theorem present_logo_rewritten_witness:
  "update_config plain_table example_logos example_config
     = Inr (example_config_updated, example_counters)
   \<and> 0 < length (config_chapters example_config)
   \<and> config_chapters example_config ! 0 = chapter_one
   \<and> example_logos (sanitize_str plain_table (ascii ''Chapter One: Intro!'')
        @ url_extension plain_table (ascii ''https://x.com/a.PNG'')) \<noteq> None
   \<and> (\<exists>chapter'. config_chapters example_config_updated ! 0 = JObj chapter'
         \<and> dict_get chapter' k_logoUrl (JStr [])
             = JStr (ascii ''assets/logos/chapter-one-intro.png''))"
proof -
  let ?ch = "[(ascii ''id'', JInt 1), (ascii ''title'', JStr (ascii ''Chapter One: Intro!'')),
     (ascii ''logoUrl'', JStr (ascii ''https://x.com/a.PNG''))]"
  have c: "chapter_one = JObj ?ch" by (simp add: chapter_one_def)
  have i: "0 < length (config_chapters example_config)"
    by (simp add: example_chapters)
  have x: "config_chapters example_config ! 0 = JObj ?ch"
    by (simp add: example_chapters c)
  have t: "dict_get ?ch k_title (JStr []) = JStr (ascii ''Chapter One: Intro!'')"
    by (simp add: dict_get_def k_title_def ascii_def)
  have u: "dict_get ?ch k_logoUrl (JStr []) = JStr (ascii ''https://x.com/a.PNG'')"
    by (simp add: dict_get_def k_logoUrl_def ascii_def)
  have ne: "ascii ''https://x.com/a.PNG'' \<noteq> []"
    by (simp add: ascii_def)
  have name: "sanitize_str plain_table (ascii ''Chapter One: Intro!'')
        @ url_extension plain_table (ascii ''https://x.com/a.PNG'') = ascii ''chapter-one-intro.png''"
    by (simp add: str_defs)
  have present: "example_logos (sanitize_str plain_table (ascii ''Chapter One: Intro!'')
        @ url_extension plain_table (ascii ''https://x.com/a.PNG'')) \<noteq> None"
    unfolding name by (simp add: example_logos_def)
  from present_logo_rewritten [OF example_run i x t u ne present]
  have "\<exists>chapter'. config_chapters example_config_updated ! 0 = JObj chapter'
         \<and> dict_get chapter' k_logoUrl (JStr [])
             = JStr (ascii ''assets/logos/'' @ ascii ''chapter-one-intro.png'')"
    unfolding name by blast
  then show ?thesis using example_run i x present c by (simp add: ascii_def)
qed

lemma update_chapter_frame:
  assumes "update_chapter L logos x n = Inr (x', n')"
  shows "x' = x \<or> (\<exists>before after t u.
            x = JObj (before @ (k_logoUrl, JStr u) # after)
          \<and> x' = JObj (before @ (k_logoUrl,
                    JStr (local_path (sanitize_str L t @ url_extension L u))) # after)
          \<and> k_logoUrl \<notin> fst ` set before
          \<and> dict_get (before @ (k_logoUrl, JStr u) # after) k_title (JStr []) = JStr t
          \<and> u \<noteq> []
          \<and> logos (sanitize_str L t @ url_extension L u) \<noteq> None)"
proof -
  from update_chapter_cases [OF assms] obtain ch where x: "x = JObj ch"
    and c: "x' = x \<or> (\<exists>t u. dict_get ch k_title (JStr []) = JStr t
             \<and> map_of ch k_logoUrl = Some (JStr u) \<and> u \<noteq> []
             \<and> logos (sanitize_str L t @ url_extension L u) \<noteq> None
             \<and> x' = JObj (AList.update k_logoUrl
                        (JStr (local_path (sanitize_str L t @ url_extension L u))) ch))"
    by blast
  from c show ?thesis
  proof
    assume "x' = x"
    then show ?thesis by simp
  next
    assume "\<exists>t u. dict_get ch k_title (JStr []) = JStr t
             \<and> map_of ch k_logoUrl = Some (JStr u) \<and> u \<noteq> []
             \<and> logos (sanitize_str L t @ url_extension L u) \<noteq> None
             \<and> x' = JObj (AList.update k_logoUrl
                        (JStr (local_path (sanitize_str L t @ url_extension L u))) ch)"
    then obtain t u where h: "dict_get ch k_title (JStr []) = JStr t"
       "map_of ch k_logoUrl = Some (JStr u)" "u \<noteq> []"
       "logos (sanitize_str L t @ url_extension L u) \<noteq> None"
       "x' = JObj (AList.update k_logoUrl
                        (JStr (local_path (sanitize_str L t @ url_extension L u))) ch)"
      by blast
    from update_split [OF h(2), of "JStr (local_path (sanitize_str L t @ url_extension L u))"]
    obtain xs ys where s: "ch = xs @ (k_logoUrl, JStr u) # ys" "k_logoUrl \<notin> fst ` set xs"
      "AList.update k_logoUrl (JStr (local_path (sanitize_str L t @ url_extension L u))) ch
         = xs @ (k_logoUrl, JStr (local_path (sanitize_str L t @ url_extension L u))) # ys"
      by blast
    from x h s have "x = JObj (xs @ (k_logoUrl, JStr u) # ys)
          \<and> x' = JObj (xs @ (k_logoUrl,
                    JStr (local_path (sanitize_str L t @ url_extension L u))) # ys)
          \<and> k_logoUrl \<notin> fst ` set xs
          \<and> dict_get (xs @ (k_logoUrl, JStr u) # ys) k_title (JStr []) = JStr t
          \<and> u \<noteq> []
          \<and> logos (sanitize_str L t @ url_extension L u) \<noteq> None"
      by simp
    then show ?thesis by blast
  qed
qed

text \<open>
  C1. In a run that completes, the written document is the loaded one except for the
  value under \<open>chapters\<close>. That value is the same, or it is a list of the same length
  in which every element is the same as before or is a chapter that differs from the
  one before in the value of its \<open>logoUrl\<close> entry alone; the latter only where the
  expected filename is in the inventory, and the new value is then the local path.
\<close>

theorem only_logo_url_changes:
  assumes "update_config L logos config = Inr (config', n)"
  shows "\<exists>before after chapters chapters'.
           config = JObj (before @ (k_chapters, chapters) # after)
         \<and> config' = JObj (before @ (k_chapters, chapters') # after)
         \<and> (chapters' = chapters \<or> (\<exists>items items'.
               chapters = JArr items \<and> chapters' = JArr items'))
         \<and> length (config_chapters config') = length (config_chapters config)
         \<and> (\<forall>i < length (config_chapters config).
               config_chapters config' ! i = config_chapters config ! i
             \<or> (\<exists>before after t u.
                   config_chapters config ! i = JObj (before @ (k_logoUrl, JStr u) # after)
                 \<and> config_chapters config' ! i = JObj (before @ (k_logoUrl,
                        JStr (local_path (sanitize_str L t @ url_extension L u))) # after)
                 \<and> k_logoUrl \<notin> fst ` set before
                 \<and> dict_get (before @ (k_logoUrl, JStr u) # after) k_title (JStr []) = JStr t
                 \<and> u \<noteq> []
                 \<and> logos (sanitize_str L t @ url_extension L u) \<noteq> None))"
proof -
  from update_config_Inr [OF assms] obtain cfg chapters items' where
    h: "config = JObj cfg" "map_of cfg k_chapters = Some chapters"
       "update_chapters L logos (config_chapters config) zero_counters = Inr (items', n)"
       "config' = JObj (AList.update k_chapters (store_chapters chapters items') cfg)"
       "config_chapters config' = items'"
    by blast
  from update_split [OF h(2), of "store_chapters chapters items'"] obtain xs ys where
    s: "cfg = xs @ (k_chapters, chapters) # ys"
       "AList.update k_chapters (store_chapters chapters items') cfg
          = xs @ (k_chapters, store_chapters chapters items') # ys"
    by blast
  have st: "store_chapters chapters items' = chapters
      \<or> (\<exists>items items2. chapters = JArr items \<and> store_chapters chapters items' = JArr items2)"
    by (cases chapters) simp_all
  have len: "length (config_chapters config') = length (config_chapters config)"
    using update_chapters_length [OF h(3)] h(5) by simp
  have elems: "\<forall>i < length (config_chapters config).
               config_chapters config' ! i = config_chapters config ! i
             \<or> (\<exists>before after t u.
                   config_chapters config ! i = JObj (before @ (k_logoUrl, JStr u) # after)
                 \<and> config_chapters config' ! i = JObj (before @ (k_logoUrl,
                        JStr (local_path (sanitize_str L t @ url_extension L u))) # after)
                 \<and> k_logoUrl \<notin> fst ` set before
                 \<and> dict_get (before @ (k_logoUrl, JStr u) # after) k_title (JStr []) = JStr t
                 \<and> u \<noteq> []
                 \<and> logos (sanitize_str L t @ url_extension L u) \<noteq> None)"
  proof (intro allI impI)
    fix i
    assume "i < length (config_chapters config)"
    from update_chapters_nth [OF h(3) this] obtain m m' where
      "update_chapter L logos (config_chapters config ! i) m = Inr (items' ! i, m')"
      by blast
    from update_chapter_frame [OF this] h(5)
    show "config_chapters config' ! i = config_chapters config ! i
             \<or> (\<exists>before after t u.
                   config_chapters config ! i = JObj (before @ (k_logoUrl, JStr u) # after)
                 \<and> config_chapters config' ! i = JObj (before @ (k_logoUrl,
                        JStr (local_path (sanitize_str L t @ url_extension L u))) # after)
                 \<and> k_logoUrl \<notin> fst ` set before
                 \<and> dict_get (before @ (k_logoUrl, JStr u) # after) k_title (JStr []) = JStr t
                 \<and> u \<noteq> []
                 \<and> logos (sanitize_str L t @ url_extension L u) \<noteq> None)"
      by simp
  qed
  from h(1,4) s have "config = JObj (xs @ (k_chapters, chapters) # ys)
      \<and> config' = JObj (xs @ (k_chapters, store_chapters chapters items') # ys)"
    by simp
  with st len elems show ?thesis by blast
qed

theorem only_logo_url_changes_witness:
  "update_config plain_table example_logos example_config
     = Inr (example_config_updated, example_counters)
   \<and> length (config_chapters example_config_updated) = length (config_chapters example_config)
   \<and> config_chapters example_config_updated ! 1 = config_chapters example_config ! 1
   \<and> config_chapters example_config_updated ! 2 = config_chapters example_config ! 2"
proof -
  from only_logo_url_changes [OF example_run [of plain_table]]
  have "length (config_chapters example_config_updated) = length (config_chapters example_config)"
    by blast
  then show ?thesis
    using example_run by (simp add: example_chapters example_chapters_updated)
qed

section \<open>The sanitizer\<close>

lemma re_sub_runs_set:
  "set (re_sub_runs X s) \<subseteq> {c \<in> set s. \<not> X c} \<union> {HYPHEN}"
proof (induction X s rule: re_sub_runs.induct)
  case (1 X)
  then show ?case by simp
next
  case (2 X c cs)
  show ?case
  proof (cases "X c")
    case True
    with 2 have "set (re_sub_runs X (dropWhile X cs))
        \<subseteq> {c \<in> set (dropWhile X cs). \<not> X c} \<union> {HYPHEN}"
      by simp
    moreover have "set (dropWhile X cs) \<subseteq> set cs"
      by (auto dest: set_dropWhileD)
    ultimately show ?thesis using True by auto
  next
    case False
    with 2 show ?thesis by auto
  qed
qed

lemma dropWhile_all: "\<forall>c \<in> set s. X c \<Longrightarrow> dropWhile X s = []"
  by (induction s) auto

lemma re_sub_runs_all:
  "\<forall>c \<in> set s. X c \<Longrightarrow> re_sub_runs X s = (if s = [] then [] else [HYPHEN])"
  by (cases s) (simp_all add: dropWhile_all)

lemma re_sub_runs_head:
  "s = [] \<or> \<not> X (hd s) \<Longrightarrow> re_sub_runs X s = [] \<or> hd (re_sub_runs X s) = hd s"
  by (cases s) auto

lemma double_hyphen_Cons:
  "double_hyphen (a # r) = ((a = HYPHEN \<and> r \<noteq> [] \<and> hd r = HYPHEN) \<or> double_hyphen r)"
  by (cases r) auto

lemma collapse_no_double: "\<not> double_hyphen (re_sub_runs (\<lambda>c. c = HYPHEN) s)"
proof (induction "\<lambda>c::nat. c = HYPHEN" s rule: re_sub_runs.induct)
  case 1
  then show ?case by simp
next
  case (2 c cs)
  show ?case
  proof (cases "c = HYPHEN")
    case True
    let ?r = "dropWhile (\<lambda>c. c = HYPHEN) cs"
    let ?t = "re_sub_runs (\<lambda>c. c = HYPHEN) ?r"
    have r: "?r = [] \<or> hd ?r \<noteq> HYPHEN"
      using hd_dropWhile [of "\<lambda>c. c = HYPHEN" cs] by blast
    then have "?t = [] \<or> hd ?t = hd ?r"
      by (intro re_sub_runs_head) simp
    note hd_t = this
    have t: "?t = [] \<or> hd ?t \<noteq> HYPHEN"
    proof (cases "?r = []")
      case True
      then have "?t = []" by (simp only: re_sub_runs.simps)
      then show ?thesis by (rule disjI1)
    next
      case False
      with r have "hd ?r \<noteq> HYPHEN" by blast
      with hd_t show ?thesis by metis
    qed
    from 2 True have "\<not> double_hyphen ?t" by simp
    with t have "\<not> double_hyphen (HYPHEN # ?t)"
      by (simp only: double_hyphen_Cons) blast
    with True show ?thesis by simp
  next
    case False
    with 2 show ?thesis by (simp add: double_hyphen_Cons)
  qed
qed

lemma double_hyphen_append_left: "double_hyphen xs \<Longrightarrow> double_hyphen (xs @ ys)"
  by (induction xs rule: double_hyphen.induct) auto

lemma double_hyphen_append_right: "double_hyphen ys \<Longrightarrow> double_hyphen (xs @ ys)"
  by (induction xs) (auto simp: double_hyphen_Cons)

lemma double_hyphen_nth:
  "double_hyphen s = (\<exists>i. Suc i < length s \<and> s ! i = HYPHEN \<and> s ! Suc i = HYPHEN)"
proof (induction s rule: double_hyphen.induct)
  case (1 a b cs)
  show ?case
  proof
    assume "double_hyphen (a # b # cs)"
    then consider "a = HYPHEN \<and> b = HYPHEN" | "double_hyphen (b # cs)" by auto
    then show "\<exists>i. Suc i < length (a # b # cs) \<and> (a # b # cs) ! i = HYPHEN
        \<and> (a # b # cs) ! Suc i = HYPHEN"
    proof cases
      case 1
      then have "Suc 0 < length (a # b # cs) \<and> (a # b # cs) ! 0 = HYPHEN
        \<and> (a # b # cs) ! Suc 0 = HYPHEN" by simp
      then show ?thesis by blast
    next
      case 2
      with 1 obtain i where "Suc i < length (b # cs)" "(b # cs) ! i = HYPHEN"
        "(b # cs) ! Suc i = HYPHEN" by blast
      then have "Suc (Suc i) < length (a # b # cs) \<and> (a # b # cs) ! Suc i = HYPHEN
        \<and> (a # b # cs) ! Suc (Suc i) = HYPHEN" by simp
      then show ?thesis by blast
    qed
  next
    assume "\<exists>i. Suc i < length (a # b # cs) \<and> (a # b # cs) ! i = HYPHEN
        \<and> (a # b # cs) ! Suc i = HYPHEN"
    then obtain i where i: "Suc i < length (a # b # cs)" "(a # b # cs) ! i = HYPHEN"
        "(a # b # cs) ! Suc i = HYPHEN" by blast
    show "double_hyphen (a # b # cs)"
    proof (cases i)
      case 0
      with i show ?thesis by simp
    next
      case (Suc j)
      with i have "Suc j < length (b # cs) \<and> (b # cs) ! j = HYPHEN \<and> (b # cs) ! Suc j = HYPHEN"
        by simp
      with 1 show ?thesis by auto
    qed
  qed
qed simp_all

lemma rev_dropWhile_split:
  "xs = rev (dropWhile P (rev xs)) @ rev (takeWhile P (rev xs))"
  by (metis rev_append rev_rev_ident takeWhile_dropWhile_id)

lemma strip_hyphens_suffix:
  "dropWhile (\<lambda>c. c = HYPHEN) s
     = strip_hyphens s
       @ rev (takeWhile (\<lambda>c. c = HYPHEN) (rev (dropWhile (\<lambda>c. c = HYPHEN) s)))"
  unfolding strip_hyphens_def by (rule rev_dropWhile_split)

lemma strip_hyphens_decomp:
  "\<exists>xs ys. s = xs @ strip_hyphens s @ ys"
proof -
  have "s = takeWhile (\<lambda>c. c = HYPHEN) s @ dropWhile (\<lambda>c. c = HYPHEN) s" by simp
  with strip_hyphens_suffix [of s]
  have "s = takeWhile (\<lambda>c. c = HYPHEN) s @ strip_hyphens s
       @ rev (takeWhile (\<lambda>c. c = HYPHEN) (rev (dropWhile (\<lambda>c. c = HYPHEN) s)))"
    by metis
  then show ?thesis by blast
qed

lemma strip_hyphens_set: "set (strip_hyphens s) \<subseteq> set s"
proof -
  from strip_hyphens_decomp [of s] obtain xs ys where "s = xs @ strip_hyphens s @ ys" by blast
  then have "set s = set xs \<union> set (strip_hyphens s) \<union> set ys"
    by (metis set_append sup_assoc)
  then show ?thesis by blast
qed

lemma strip_hyphens_no_double: "\<not> double_hyphen s \<Longrightarrow> \<not> double_hyphen (strip_hyphens s)"
proof -
  assume n: "\<not> double_hyphen s"
  from strip_hyphens_decomp [of s] obtain xs ys where s: "s = xs @ strip_hyphens s @ ys" by blast
  show "\<not> double_hyphen (strip_hyphens s)"
  proof
    assume "double_hyphen (strip_hyphens s)"
    then have "double_hyphen (strip_hyphens s @ ys)" by (rule double_hyphen_append_left)
    then have "double_hyphen (xs @ strip_hyphens s @ ys)" by (rule double_hyphen_append_right)
    with s n show False by simp
  qed
qed

lemma strip_hyphens_last: "strip_hyphens s \<noteq> [] \<Longrightarrow> last (strip_hyphens s) \<noteq> HYPHEN"
proof -
  let ?b = "dropWhile (\<lambda>c. c = HYPHEN) (rev (dropWhile (\<lambda>c. c = HYPHEN) s))"
  assume "strip_hyphens s \<noteq> []"
  then have ne: "?b \<noteq> []" by (simp add: strip_hyphens_def)
  then have "hd ?b \<noteq> HYPHEN" by (rule hd_dropWhile)
  moreover have "last (strip_hyphens s) = hd ?b"
    using ne by (simp add: strip_hyphens_def last_rev)
  ultimately show ?thesis by simp
qed

lemma strip_hyphens_hd: "strip_hyphens s \<noteq> [] \<Longrightarrow> hd (strip_hyphens s) \<noteq> HYPHEN"
proof -
  let ?a = "dropWhile (\<lambda>c. c = HYPHEN) s"
  assume ne: "strip_hyphens s \<noteq> []"
  from strip_hyphens_suffix [of s] obtain ys where a: "?a = strip_hyphens s @ ys" by blast
  with ne have "?a \<noteq> []" by auto
  then have "hd ?a \<noteq> HYPHEN" by (rule hd_dropWhile)
  moreover from a ne have "hd ?a = hd (strip_hyphens s)"
    by (metis hd_append2)
  ultimately show ?thesis by simp
qed

lemma lower_from_ascii:
  "\<forall>c \<in> set s. c < 128 \<and> ascii_lower c = c \<Longrightarrow> lower_from L pre s = s"
  by (induction s arbitrary: pre) (auto simp: lower_cp_def)

lemma alnum_lower: "is_alnum c \<or> c = HYPHEN \<Longrightarrow> c < 128 \<and> ascii_lower c = c"
  by (auto simp: is_alnum_def ascii_lower_def)

lemma sanitize_str_take:
  "sanitize_str L title = take 50 (strip_hyphens (re_sub_runs (\<lambda>c. c = HYPHEN)
     (re_sub_runs (\<lambda>c. \<not> is_alnum c) (str_lower L title))))"
  by (simp add: sanitize_str_def Let_def)

lemma sanitize_str_set: "c \<in> set (sanitize_str L title) \<Longrightarrow> is_alnum c \<or> c = HYPHEN"
proof -
  let ?a = "re_sub_runs (\<lambda>c. \<not> is_alnum c) (str_lower L title)"
  let ?b = "re_sub_runs (\<lambda>c. c = HYPHEN) ?a"
  assume "c \<in> set (sanitize_str L title)"
  then have "c \<in> set (strip_hyphens ?b)"
    unfolding sanitize_str_take by (rule in_set_takeD)
  with strip_hyphens_set [of ?b] have "c \<in> set ?b" by blast
  with re_sub_runs_set [of "\<lambda>c. c = HYPHEN" ?a] have "c \<in> set ?a \<or> c = HYPHEN" by auto
  with re_sub_runs_set [of "\<lambda>c. \<not> is_alnum c" "str_lower L title"] show ?thesis by auto
qed

lemma sanitize_str_no_double: "\<not> double_hyphen (sanitize_str L title)"
proof
  let ?b = "re_sub_runs (\<lambda>c. c = HYPHEN)
     (re_sub_runs (\<lambda>c. \<not> is_alnum c) (str_lower L title))"
  assume "double_hyphen (sanitize_str L title)"
  then have "double_hyphen (take 50 (strip_hyphens ?b) @ drop 50 (strip_hyphens ?b))"
    unfolding sanitize_str_take by (rule double_hyphen_append_left)
  then have "double_hyphen (strip_hyphens ?b)" by simp
  with strip_hyphens_no_double [OF collapse_no_double, of
      "re_sub_runs (\<lambda>c. \<not> is_alnum c) (str_lower L title)"]
  show False by simp
qed

lemma sanitize_str_hd: "sanitize_str L title \<noteq> [] \<Longrightarrow> hd (sanitize_str L title) \<noteq> HYPHEN"
proof -
  let ?s = "strip_hyphens (re_sub_runs (\<lambda>c. c = HYPHEN)
     (re_sub_runs (\<lambda>c. \<not> is_alnum c) (str_lower L title)))"
  assume "sanitize_str L title \<noteq> []"
  then have ne: "?s \<noteq> []" by (auto simp: sanitize_str_take)
  then have "hd (sanitize_str L title) = hd ?s"
    by (simp add: sanitize_str_take hd_take)
  with strip_hyphens_hd [OF ne] show ?thesis by simp
qed

lemma sanitize_str_last:
  assumes "sanitize_str L title \<noteq> []" and "length (sanitize_str L title) < 50"
  shows "last (sanitize_str L title) \<noteq> HYPHEN"
proof -
  let ?s = "strip_hyphens (re_sub_runs (\<lambda>c. c = HYPHEN)
     (re_sub_runs (\<lambda>c. \<not> is_alnum c) (str_lower L title)))"
  from assms(2) have "length ?s < 50" by (simp add: sanitize_str_take)
  then have eq: "sanitize_str L title = ?s" by (simp add: sanitize_str_take)
  with assms(1) have "?s \<noteq> []" by simp
  from strip_hyphens_last [OF this] eq show ?thesis by simp
qed

lemma sanitize_str_symbols:
  assumes "\<forall>c \<in> set (str_lower L title). \<not> is_alnum c"
  shows "sanitize_str L title = []"
proof -
  from re_sub_runs_all [OF assms]
  have "re_sub_runs (\<lambda>c. \<not> is_alnum c) (str_lower L title) = [] \<or>
        re_sub_runs (\<lambda>c. \<not> is_alnum c) (str_lower L title) = [HYPHEN]"
    by (simp split: if_splits)
  then show ?thesis
    by (auto simp: sanitize_str_take strip_hyphens_def)
qed

text \<open>
  What holds of the sanitizer for every title. The result consists of the characters
  \<open>a-z\<close>, \<open>0-9\<close> and the hyphen, and lowering it changes nothing; it has no two
  consecutive hyphens, does not start with a hyphen, has at most 50 characters, and does
  not end with a hyphen when it has fewer than 50; the empty title, and a title whose
  lower case has no letter or digit, give the empty string.
\<close>

theorem sanitize_properties:
  "(\<forall>c \<in> set (sanitize_str L title). is_alnum c \<or> c = HYPHEN)
   \<and> str_lower L (sanitize_str L title) = sanitize_str L title
   \<and> \<not> double_hyphen (sanitize_str L title)
   \<and> (sanitize_str L title \<noteq> [] \<longrightarrow> hd (sanitize_str L title) \<noteq> HYPHEN)
   \<and> (sanitize_str L title \<noteq> [] \<longrightarrow> length (sanitize_str L title) < 50
        \<longrightarrow> last (sanitize_str L title) \<noteq> HYPHEN)
   \<and> length (sanitize_str L title) \<le> 50
   \<and> sanitize_str L [] = []
   \<and> ((\<forall>c \<in> set (str_lower L title). \<not> is_alnum c) \<longrightarrow> sanitize_str L title = [])"
proof -
  have chars: "\<forall>c \<in> set (sanitize_str L title). is_alnum c \<or> c = HYPHEN"
    by (blast dest: sanitize_str_set)
  then have "\<forall>c \<in> set (sanitize_str L title). c < 128 \<and> ascii_lower c = c"
    using alnum_lower by blast
  then have lower: "str_lower L (sanitize_str L title) = sanitize_str L title"
    unfolding str_lower_def by (rule lower_from_ascii)
  have len: "length (sanitize_str L title) \<le> 50"
    by (simp add: sanitize_str_take)
  have empty: "sanitize_str L [] = []"
    by (simp add: sanitize_str_take str_lower_def strip_hyphens_def)
  from chars lower len empty sanitize_str_no_double [of L title] sanitize_str_hd [of L title]
    sanitize_str_last [of L title] sanitize_str_symbols [of L title]
  show ?thesis by blast
qed

theorem sanitize_properties_witness:
  "sanitize_str plain_table (ascii ''Chapter One: Intro!'') = ascii ''chapter-one-intro''
   \<and> sanitize_str plain_table (ascii ''Chapter One: Intro!'') \<noteq> []
   \<and> length (sanitize_str plain_table (ascii ''Chapter One: Intro!'')) < 50
   \<and> hd (sanitize_str plain_table (ascii ''Chapter One: Intro!'')) \<noteq> HYPHEN
   \<and> last (sanitize_str plain_table (ascii ''Chapter One: Intro!'')) \<noteq> HYPHEN
   \<and> str_lower plain_table (ascii ''??'') = [QMARK, QMARK]
   \<and> \<not> is_alnum QMARK
   \<and> sanitize_str plain_table (ascii ''??'') = []"
proof -
  have low: "str_lower plain_table (ascii ''??'') = [QMARK, QMARK]" "\<not> is_alnum QMARK"
    by (simp_all add: str_defs)
  have v: "sanitize_str plain_table (ascii ''Chapter One: Intro!'') = ascii ''chapter-one-intro''"
    by (simp add: str_defs)
  then have ne: "sanitize_str plain_table (ascii ''Chapter One: Intro!'') \<noteq> []"
    and len: "length (sanitize_str plain_table (ascii ''Chapter One: Intro!'')) < 50"
    by (simp_all add: ascii_def)
  from low have sym: "\<forall>c \<in> set (str_lower plain_table (ascii ''??'')). \<not> is_alnum c"
    by simp
  from sanitize_properties [of plain_table "ascii ''Chapter One: Intro!''"] ne len
  have "hd (sanitize_str plain_table (ascii ''Chapter One: Intro!'')) \<noteq> HYPHEN"
    and "last (sanitize_str plain_table (ascii ''Chapter One: Intro!'')) \<noteq> HYPHEN"
    by blast+
  moreover from sanitize_properties [of plain_table "ascii ''??''"] sym
  have "sanitize_str plain_table (ascii ''??'') = []" by blast
  ultimately show ?thesis using v ne len low by blast
qed

text \<open>
  C4. The result of the sanitizer is said never to end with a hyphen. Line 21 strips the
  hyphens and line 22 cuts to 50 characters afterwards: a title of 49 letters \<open>a\<close>, a
  space and a \<open>b\<close> is stripped to 51 characters and cut right after the hyphen, so the
  result ends with a hyphen.
\<close>

theorem sanitize_trailing_hyphen:
  "sanitize_str plain_table (replicate 49 97 @ ascii '' b'') = replicate 49 97 @ [HYPHEN]
   \<and> last (sanitize_str plain_table (replicate 49 97 @ ascii '' b'')) = HYPHEN"
proof -
  have "sanitize_str plain_table (replicate 49 97 @ ascii '' b'') = replicate 49 97 @ [HYPHEN]"
    by (simp add: str_defs eval_nat_numeral)
  then show ?thesis by simp
qed

section \<open>The extension resolver\<close>

lemma ci_match_letter:
  "97 \<le> l \<Longrightarrow> l \<le> 122 \<Longrightarrow> ci_match l c \<Longrightarrow> c \<noteq> DOT \<and> c \<noteq> QMARK \<and> c \<noteq> NEWLINE"
  by (auto simp: ci_match_def ascii_lower_def split: if_splits)

lemma list_all2_letters:
  "list_all2 ci_match w g \<Longrightarrow> \<forall>l \<in> set w. 97 \<le> l \<and> l \<le> 122 \<Longrightarrow>
   \<forall>c \<in> set g. c \<noteq> DOT \<and> c \<noteq> QMARK \<and> c \<noteq> NEWLINE"
  by (induction rule: list_all2_induct) (auto dest: ci_match_letter)

lemma ext_words_letters: "\<forall>w \<in> set ext_words. \<forall>l \<in> set w. 97 \<le> l \<and> l \<le> 122"
  by (simp add: ext_words_def ascii_def)

lemma spec_tail_query_or_end: "spec_tail r \<Longrightarrow> query_or_end r"
  by (auto simp: spec_tail_def query_or_end_def split: list.splits)

lemma query_or_end_cases: "query_or_end r = (spec_tail r \<or> r = [NEWLINE])"
  by (auto simp: spec_tail_def query_or_end_def split: list.splits)

lemma query_or_end_snoc: "query_or_end (d @ [NEWLINE]) = spec_tail d"
  by (cases d) (auto simp: spec_tail_def query_or_end_def)

lemma match_alts_snoc:
  "\<forall>w \<in> set ws. \<forall>l \<in> set w. 97 \<le> l \<and> l \<le> 122 \<Longrightarrow>
   match_alts ws (r @ [NEWLINE]) = spec_alts ws r"
proof (induction ws)
  case Nil
  then show ?case by simp
next
  case (Cons w ws)
  then have letters: "\<forall>l \<in> set w. 97 \<le> l \<and> l \<le> 122" by simp
  from Cons have IH: "match_alts ws (r @ [NEWLINE]) = spec_alts ws r" by simp
  consider "length w \<le> length r" | "length w = Suc (length r)" | "Suc (length r) < length w"
    by linarith
  then show ?case
  proof cases
    case 1
    then show ?thesis using IH by (simp add: query_or_end_snoc)
  next
    case 2
    have "\<not> list_all2 ci_match w (r @ [NEWLINE])"
    proof
      assume "list_all2 ci_match w (r @ [NEWLINE])"
      from list_all2_letters [OF this letters] show False by simp
    qed
    with 2 show ?thesis using IH by simp
  next
    case 3
    then show ?thesis using IH by simp
  qed
qed

lemma match_alts_no_newline:
  "r = [] \<or> last r \<noteq> NEWLINE \<Longrightarrow> match_alts ws r = spec_alts ws r"
proof (induction ws)
  case Nil
  then show ?case by simp
next
  case (Cons w ws)
  have "drop (length w) r \<noteq> [NEWLINE]"
  proof
    assume d: "drop (length w) r = [NEWLINE]"
    then have "length w < length r" by (cases "length w < length r") auto
    then have "last (drop (length w) r) = last r" by (rule last_drop)
    with d Cons.prems show False by auto
  qed
  then have "query_or_end (drop (length w) r) = spec_tail (drop (length w) r)"
    by (simp add: query_or_end_cases)
  with Cons show ?case by simp
qed

lemma re_search_snoc: "re_search (u @ [NEWLINE]) = spec_search u"
proof (induction u)
  case Nil
  then show ?case by simp
next
  case (Cons c r)
  then show ?case
    by (auto simp: match_alts_snoc [OF ext_words_letters] split: option.splits)
qed

lemma re_search_no_newline:
  "u = [] \<or> last u \<noteq> NEWLINE \<Longrightarrow> re_search u = spec_search u"
proof (induction u)
  case Nil
  then show ?case by simp
next
  case (Cons c r)
  from Cons.prems have r: "r = [] \<or> last r \<noteq> NEWLINE" by (cases r) auto
  with Cons.IH have "re_search r = spec_search r" by simp
  with r show ?case by (auto simp: match_alts_no_newline split: option.splits)
qed

lemma re_search_spec:
  "re_search u = (if u \<noteq> [] \<and> last u = NEWLINE then spec_search (butlast u)
                  else spec_search u)"
proof (cases "u \<noteq> [] \<and> last u = NEWLINE")
  case True
  then have "u = butlast u @ [NEWLINE]" by (metis append_butlast_last_id)
  then have "re_search u = spec_search (butlast u)" by (metis re_search_snoc)
  with True show ?thesis by simp
next
  case False
  then have "re_search u = spec_search u" by (intro re_search_no_newline) blast
  with False show ?thesis by auto
qed

lemma spec_alts_Some:
  "spec_alts ws r = Some g \<Longrightarrow>
   \<exists>w \<in> set ws. length w \<le> length r \<and> g = take (length w) r \<and> list_all2 ci_match w g
      \<and> spec_tail (drop (length w) r)"
  by (induction ws) (auto split: if_splits)

lemma spec_alts_None:
  "spec_alts ws r = None \<Longrightarrow> w \<in> set ws \<Longrightarrow>
   \<not> (length w \<le> length r \<and> list_all2 ci_match w (take (length w) r)
      \<and> spec_tail (drop (length w) r))"
  by (induction ws) (auto split: if_splits)

lemma no_dot_spec_search: "DOT \<notin> set r \<Longrightarrow> spec_search r = None"
  by (induction r) auto

lemma spec_alts_snoc_Some:
  assumes "\<forall>w \<in> set ws. \<forall>l \<in> set w. 97 \<le> l \<and> l \<le> 122"
    and "spec_alts ws (r @ [NEWLINE]) = Some g"
  shows "spec_alts ws r = Some g"
  using assms
proof (induction ws)
  case Nil
  then show ?case by simp
next
  case (Cons w ws)
  then have letters: "\<forall>l \<in> set w. 97 \<le> l \<and> l \<le> 122" by simp
  let ?S = "\<lambda>x. length w \<le> length x \<and> list_all2 ci_match w (take (length w) x)
      \<and> spec_tail (drop (length w) x)"
  show ?case
  proof (cases "?S (r @ [NEWLINE])")
    case True
    have le: "length w \<le> length r"
    proof (rule ccontr)
      assume "\<not> length w \<le> length r"
      with True have "list_all2 ci_match w (r @ [NEWLINE])" by simp
      from list_all2_letters [OF this letters] show False by simp
    qed
    with True have "spec_tail (drop (length w) r @ [NEWLINE])" by simp
    then have "spec_tail (drop (length w) r)"
      by (cases "drop (length w) r") (auto simp: spec_tail_def)
    with True le have "?S r" by simp
    with True le Cons.prems show ?thesis by simp
  next
    case False
    then have "spec_alts (w # ws) (r @ [NEWLINE]) = spec_alts ws (r @ [NEWLINE])"
      by (simp only: spec_alts.simps if_False)
    with Cons.prems have rest: "spec_alts ws (r @ [NEWLINE]) = Some g" by simp
    with Cons have IH: "spec_alts ws r = Some g" by simp
    have "\<not> ?S r"
    proof
      assume S: "?S r"
      with False have "\<not> spec_tail (drop (length w) r @ [NEWLINE])" by simp
      with S have "drop (length w) r = []"
        by (cases "drop (length w) r") (auto simp: spec_tail_def)
      with S have "list_all2 ci_match w r" by simp
      from list_all2_letters [OF this letters] have noq: "\<forall>c \<in> set r. c \<noteq> QMARK" by blast
      from spec_alts_Some [OF rest] obtain w' where
        w': "length w' \<le> length (r @ [NEWLINE])"
            "spec_tail (drop (length w') (r @ [NEWLINE]))"
            "list_all2 ci_match w' (take (length w') (r @ [NEWLINE]))"
            "w' \<in> set ws"
        by auto
      from w'(4) Cons.prems have l': "\<forall>l \<in> set w'. 97 \<le> l \<and> l \<le> 122" by simp
      have "length w' \<le> length r"
      proof (rule ccontr)
        assume "\<not> length w' \<le> length r"
        with w'(1,3) have "list_all2 ci_match w' (r @ [NEWLINE])" by simp
        from list_all2_letters [OF this l'] show False by simp
      qed
      with w'(2) have t: "spec_tail (drop (length w') r @ [NEWLINE])" by simp
      show False
      proof (cases "drop (length w') r")
        case Nil
        with t show False by (simp add: spec_tail_def)
      next
        case (Cons a as)
        with t have "a = QMARK" by (simp add: spec_tail_def)
        moreover from Cons have "a \<in> set r" by (metis in_set_dropD list.set_intros(1))
        ultimately show False using noq by blast
      qed
    qed
    then have "spec_alts (w # ws) r = spec_alts ws r"
      by (simp only: spec_alts.simps if_False)
    with IH show ?thesis by simp
  qed
qed

lemma spec_alts_snoc_None:
  assumes "\<forall>w \<in> set ws. \<forall>l \<in> set w. 97 \<le> l \<and> l \<le> 122"
    and "spec_alts ws (r @ [NEWLINE]) = None" and "spec_alts ws r = Some g"
  shows "DOT \<notin> set r"
proof -
  from spec_alts_Some [OF assms(3)] obtain w where
    w: "w \<in> set ws" "length w \<le> length r" "g = take (length w) r" "list_all2 ci_match w g"
       "spec_tail (drop (length w) r)"
    by blast
  from spec_alts_None [OF assms(2) w(1)] w
  have "\<not> spec_tail (drop (length w) r @ [NEWLINE])" by simp
  with w(5) have "drop (length w) r = []"
    by (cases "drop (length w) r") (auto simp: spec_tail_def)
  with w have "list_all2 ci_match w r" by simp
  from list_all2_letters [OF this] assms(1) w(1) show ?thesis by blast
qed

lemma spec_search_snoc:
  "spec_search (u @ [NEWLINE]) = Some g \<Longrightarrow> spec_search u = Some g"
proof (induction u)
  case Nil
  then show ?case by simp
next
  case (Cons c r)
  show ?case
  proof (cases "c = DOT")
    case False
    with Cons show ?thesis by simp
  next
    case True
    show ?thesis
    proof (cases "spec_alts ext_words (r @ [NEWLINE])")
      case (Some g')
      with True Cons.prems have "g' = g" by simp
      with Some spec_alts_snoc_Some [OF ext_words_letters] have "spec_alts ext_words r = Some g"
        by blast
      with True show ?thesis by simp
    next
      case None
      with True Cons.prems have "spec_search (r @ [NEWLINE]) = Some g" by simp
      with Cons.IH have r: "spec_search r = Some g" by simp
      have "spec_alts ext_words r = None"
      proof (cases "spec_alts ext_words r")
        case (Some g')
        from spec_alts_snoc_None [OF ext_words_letters None Some]
        have "spec_search r = None" by (rule no_dot_spec_search)
        with r show ?thesis by simp
      qed simp
      with True r show ?thesis by simp
    qed
  qed
qed

lemma spec_search_re_search: "spec_search u = Some g \<Longrightarrow> re_search u = Some g"
proof (cases "u \<noteq> [] \<and> last u = NEWLINE")
  case True
  assume g: "spec_search u = Some g"
  from True have "u = butlast u @ [NEWLINE]" by (metis append_butlast_last_id)
  with g have "spec_search (butlast u @ [NEWLINE]) = Some g" by simp
  then have "spec_search (butlast u) = Some g" by (rule spec_search_snoc)
  with True show ?thesis by (simp add: re_search_spec)
next
  case False
  assume "spec_search u = Some g"
  with False show ?thesis by (auto simp: re_search_spec)
qed

text \<open>What \<open>spec_search\<close> finds is a token of the string, and \<open>None\<close> says there is none.\<close>

lemma spec_alts_token:
  "spec_alts ext_words r = Some g \<Longrightarrow>
   \<exists>rest. r = g @ rest \<and> is_ext_token g \<and> spec_tail rest"
proof -
  assume "spec_alts ext_words r = Some g"
  from spec_alts_Some [OF this] obtain w where
    w: "w \<in> set ext_words" "g = take (length w) r" "list_all2 ci_match w g"
       "spec_tail (drop (length w) r)"
    by blast
  then have "r = g @ drop (length w) r" by simp
  moreover from w have "is_ext_token g" by (auto simp: is_ext_token_def list_ex_iff)
  ultimately show ?thesis using w(4) by blast
qed

lemma spec_search_token:
  "spec_search u = Some g \<Longrightarrow>
   \<exists>front rest. u = front @ DOT # g @ rest \<and> is_ext_token g \<and> spec_tail rest"
proof (induction u)
  case Nil
  then show ?case by simp
next
  case (Cons c r)
  show ?case
  proof (cases "c = DOT \<and> spec_alts ext_words r = Some g")
    case True
    with spec_alts_token obtain rest where "r = g @ rest" "is_ext_token g" "spec_tail rest"
      by blast
    with True have "c # r = [] @ DOT # g @ rest \<and> is_ext_token g \<and> spec_tail rest" by simp
    then show ?thesis by blast
  next
    case False
    with Cons.prems have "spec_search r = Some g"
      by (auto split: if_splits option.splits)
    with Cons.IH obtain front rest where
      "r = front @ DOT # g @ rest" "is_ext_token g" "spec_tail rest" by blast
    then have "c # r = (c # front) @ DOT # g @ rest \<and> is_ext_token g \<and> spec_tail rest" by simp
    then show ?thesis by blast
  qed
qed

lemma spec_search_no_token:
  assumes "spec_search u = None"
  shows "\<not> (\<exists>front g rest. u = front @ DOT # g @ rest \<and> is_ext_token g \<and> spec_tail rest)"
proof
  assume "\<exists>front g rest. u = front @ DOT # g @ rest \<and> is_ext_token g \<and> spec_tail rest"
  then obtain front g rest where
    u: "u = front @ DOT # g @ rest" and g: "is_ext_token g" and t: "spec_tail rest"
    by blast
  from g obtain w where w: "w \<in> set ext_words" "list_all2 ci_match w g"
    by (auto simp: is_ext_token_def list_ex_iff)
  then have len: "length w = length g" by (simp add: list_all2_lengthD)
  from assms u show False
  proof (induction front arbitrary: u)
    case Nil
    then have "spec_alts ext_words (g @ rest) = None"
      by (auto split: option.splits)
    from spec_alts_None [OF this w(1)] len w(2) t show False by simp
  next
    case (Cons a front)
    then have "spec_search (front @ DOT # g @ rest) = None"
      by (auto split: if_splits option.splits)
    with Cons.IH show False by blast
  qed
qed

text \<open>
  C5, as the code has it. The resolver gives \<open>.png\<close> for \<open>None\<close> and for the empty
  string. If the URL has an extension token (one of the six words, matched without
  regard to case, after a dot and immediately before the end of the string or a
  question mark), it gives a dot and the lower case of the leftmost one. If the URL has
  no such token, it gives \<open>.png\<close>, unless the URL ends with a newline and has a token
  once that newline is removed: then it gives the extension of that token, because
  \<open>$\<close> also matches before a final newline.
\<close>

theorem extension_resolver:
  "get_extension_from_url L JNull = Inr (ascii ''.png'')
   \<and> get_extension_from_url L (JStr []) = Inr (ascii ''.png'')
   \<and> (spec_search u = Some g \<longrightarrow>
        get_extension_from_url L (JStr u) = Inr (DOT # str_lower L g))
   \<and> (spec_search u = None \<longrightarrow> u \<noteq> [] \<longrightarrow> last u = NEWLINE \<longrightarrow>
        spec_search (butlast u) = Some g \<longrightarrow>
        get_extension_from_url L (JStr u) = Inr (DOT # str_lower L g))
   \<and> (spec_search u = None \<longrightarrow>
        \<not> (u \<noteq> [] \<and> last u = NEWLINE \<and> spec_search (butlast u) \<noteq> None) \<longrightarrow>
        get_extension_from_url L (JStr u) = Inr (ascii ''.png''))"
proof -
  have none: "get_extension_from_url L JNull = Inr (ascii ''.png'')"
    by (simp add: get_extension_from_url_def)
  have empty: "get_extension_from_url L (JStr []) = Inr (ascii ''.png'')"
    by (simp add: get_extension_from_url_def)
  have found: "get_extension_from_url L (JStr u) = Inr (DOT # str_lower L g)"
    if "spec_search u = Some g"
  proof -
    from that have "re_search u = Some g" by (rule spec_search_re_search)
    moreover from that have "u \<noteq> []" by auto
    ultimately show ?thesis by (simp add: get_extension_from_url_def url_extension_def)
  qed
  have newline: "get_extension_from_url L (JStr u) = Inr (DOT # str_lower L g)"
    if "u \<noteq> []" "last u = NEWLINE" "spec_search (butlast u) = Some g"
  proof -
    from that have "re_search u = Some g" by (simp add: re_search_spec)
    with that(1) show ?thesis by (simp add: get_extension_from_url_def url_extension_def)
  qed
  have fallback: "get_extension_from_url L (JStr u) = Inr (ascii ''.png'')"
    if "spec_search u = None"
      "\<not> (u \<noteq> [] \<and> last u = NEWLINE \<and> spec_search (butlast u) \<noteq> None)"
  proof -
    from that have "re_search u = None" by (auto simp: re_search_spec)
    then show ?thesis by (simp add: get_extension_from_url_def url_extension_def)
  qed
  from none empty found newline fallback show ?thesis by blast
qed

theorem extension_resolver_witness:
  "spec_search (ascii ''https://x.com/a.PNG'') = Some (ascii ''PNG'')
   \<and> get_extension_from_url plain_table (JStr (ascii ''https://x.com/a.PNG''))
       = Inr (ascii ''.png'')
   \<and> spec_search (ascii ''https://cdn.x/img.svg?v=2'') = Some (ascii ''svg'')
   \<and> get_extension_from_url plain_table (JStr (ascii ''https://cdn.x/img.svg?v=2''))
       = Inr (ascii ''.svg'')
   \<and> spec_search (ascii ''https://x.com/logo.JPEG'' @ [NEWLINE]) = None
   \<and> spec_search (butlast (ascii ''https://x.com/logo.JPEG'' @ [NEWLINE])) = Some (ascii ''JPEG'')
   \<and> get_extension_from_url plain_table (JStr (ascii ''https://x.com/logo.JPEG'' @ [NEWLINE]))
       = Inr (ascii ''.jpeg'')
   \<and> spec_search (ascii ''https://x.com/logo.tiff'') = None
   \<and> get_extension_from_url plain_table (JStr (ascii ''https://x.com/logo.tiff''))
       = Inr (ascii ''.png'')"
proof -
  have a: "spec_search (ascii ''https://x.com/a.PNG'') = Some (ascii ''PNG'')"
    by (simp add: str_defs spec_tail_def)
  have b: "spec_search (ascii ''https://cdn.x/img.svg?v=2'') = Some (ascii ''svg'')"
    by (simp add: str_defs spec_tail_def)
  have c: "spec_search (ascii ''https://x.com/logo.JPEG'' @ [NEWLINE]) = None"
    "ascii ''https://x.com/logo.JPEG'' @ [NEWLINE] \<noteq> []"
    "last (ascii ''https://x.com/logo.JPEG'' @ [NEWLINE]) = NEWLINE"
    "spec_search (butlast (ascii ''https://x.com/logo.JPEG'' @ [NEWLINE])) = Some (ascii ''JPEG'')"
    by (simp_all add: str_defs spec_tail_def)
  have d: "spec_search (ascii ''https://x.com/logo.tiff'') = None"
    "\<not> (ascii ''https://x.com/logo.tiff'' \<noteq> []
        \<and> last (ascii ''https://x.com/logo.tiff'') = NEWLINE
        \<and> spec_search (butlast (ascii ''https://x.com/logo.tiff'')) \<noteq> None)"
    by (simp_all add: str_defs spec_tail_def)
  have l: "str_lower plain_table (ascii ''PNG'') = ascii ''png''"
    "str_lower plain_table (ascii ''svg'') = ascii ''svg''"
    "str_lower plain_table (ascii ''JPEG'') = ascii ''jpeg''"
    by (simp_all add: str_defs)
  from extension_resolver [of plain_table "ascii ''https://x.com/a.PNG''" "ascii ''PNG''"] a
  have 1: "get_extension_from_url plain_table (JStr (ascii ''https://x.com/a.PNG''))
       = Inr (DOT # str_lower plain_table (ascii ''PNG''))" by blast
  from extension_resolver [of plain_table "ascii ''https://cdn.x/img.svg?v=2''" "ascii ''svg''"] b
  have 2: "get_extension_from_url plain_table (JStr (ascii ''https://cdn.x/img.svg?v=2''))
       = Inr (DOT # str_lower plain_table (ascii ''svg''))" by blast
  from extension_resolver [of plain_table "ascii ''https://x.com/logo.JPEG'' @ [NEWLINE]"
      "ascii ''JPEG''"] c
  have 3: "get_extension_from_url plain_table (JStr (ascii ''https://x.com/logo.JPEG'' @ [NEWLINE]))
       = Inr (DOT # str_lower plain_table (ascii ''JPEG''))" by blast
  from extension_resolver [of plain_table "ascii ''https://x.com/logo.tiff''"] d
  have 4: "get_extension_from_url plain_table (JStr (ascii ''https://x.com/logo.tiff''))
       = Inr (ascii ''.png'')" by blast
  from 1 2 3 have
    "get_extension_from_url plain_table (JStr (ascii ''https://x.com/a.PNG'')) = Inr (ascii ''.png'')"
    "get_extension_from_url plain_table (JStr (ascii ''https://cdn.x/img.svg?v=2''))
       = Inr (ascii ''.svg'')"
    "get_extension_from_url plain_table (JStr (ascii ''https://x.com/logo.JPEG'' @ [NEWLINE]))
       = Inr (ascii ''.jpeg'')"
    unfolding l by (simp_all add: ascii_def)
  with a b c d 4 show ?thesis by blast
qed

text \<open>
  C5 as stated fails: \<open>a.jpg\<close> followed by a newline has no token that is
  immediately followed by the end of the string or by a question mark, and the resolver
  gives \<open>.jpg\<close>, not \<open>.png\<close>.
\<close>

theorem extension_before_newline:
  "spec_search (ascii ''a.jpg'' @ [NEWLINE]) = None
   \<and> get_extension_from_url plain_table (JStr (ascii ''a.jpg'' @ [NEWLINE]))
       = Inr (ascii ''.jpg'')"
  by (simp add: get_extension_from_url_def str_defs spec_tail_def)

section \<open>A second run\<close>

lemma ci_match_lower:
  assumes "ci_match l c" and "97 \<le> l" and "l \<le> 122" and "c \<noteq> 0x130"
  shows "\<exists>c'. lower_cp L pre c post = [c'] \<and> ci_match l c' \<and> c' \<noteq> 0x130
           \<and> (\<forall>pre' post'. lower_cp L pre' c' post' = [c'])"
proof -
  from assms consider "c = l" | "c + 32 = l" "65 \<le> c" "c \<le> 90"
    | "l = 0x69" "c = 0x131" | "l = 0x73" "c = 0x17F" | "l = 0x6B" "c = 0x212A"
    by (auto simp: ci_match_def ascii_lower_def split: if_splits)
  then show ?thesis
  proof cases
    case 1
    with assms have "lower_cp L pre c post = [l] \<and> ci_match l l \<and> l \<noteq> 0x130
        \<and> (\<forall>pre' post'. lower_cp L pre' l post' = [l])"
      by (auto simp: lower_cp_def ascii_lower_def ci_match_def)
    then show ?thesis by blast
  next
    case 2
    with assms have "lower_cp L pre c post = [l] \<and> ci_match l l \<and> l \<noteq> 0x130
        \<and> (\<forall>pre' post'. lower_cp L pre' l post' = [l])"
      by (auto simp: lower_cp_def ascii_lower_def ci_match_def)
    then show ?thesis by blast
  next
    case 3
    then have "lower_cp L pre c post = [c] \<and> ci_match l c \<and> c \<noteq> 0x130
        \<and> (\<forall>pre' post'. lower_cp L pre' c post' = [c])"
      by (simp add: lower_cp_def ci_match_def)
    then show ?thesis by blast
  next
    case 4
    then have "lower_cp L pre c post = [c] \<and> ci_match l c \<and> c \<noteq> 0x130
        \<and> (\<forall>pre' post'. lower_cp L pre' c post' = [c])"
      by (simp add: lower_cp_def ci_match_def)
    then show ?thesis by blast
  next
    case 5
    then have "lower_cp L pre c post = [l] \<and> ci_match l l \<and> l \<noteq> 0x130
        \<and> (\<forall>pre' post'. lower_cp L pre' l post' = [l])"
      by (simp add: lower_cp_def ci_match_def ascii_lower_def)
    then show ?thesis by blast
  qed
qed

lemma word_lower:
  "list_all2 ci_match w g \<Longrightarrow> \<forall>l \<in> set w. 97 \<le> l \<and> l \<le> 122 \<Longrightarrow> 0x130 \<notin> set g \<Longrightarrow>
   \<exists>g'. lower_from L pre g = g' \<and> list_all2 ci_match w g'
      \<and> (\<forall>pre'. lower_from L pre' g' = g')"
proof (induction arbitrary: pre rule: list_all2_induct)
  case Nil
  then show ?case by simp
next
  case (Cons l w c g)
  from Cons.prems Cons.hyps(1) ci_match_lower [of l c L pre g]
  obtain c' where c': "lower_cp L pre c g = [c']" "ci_match l c'"
      "\<forall>pre' post'. lower_cp L pre' c' post' = [c']"
    by auto
  from Cons.IH [of "pre @ [c]"] Cons.prems
  obtain g' where g': "lower_from L (pre @ [c]) g = g'" "list_all2 ci_match w g'"
      "\<forall>pre'. lower_from L pre' g' = g'"
    by auto
  from c' g' have "lower_from L pre (c # g) = c' # g' \<and> list_all2 ci_match (l # w) (c' # g')
      \<and> (\<forall>pre'. lower_from L pre' (c' # g') = c' # g')"
    by simp
  then show ?case by blast
qed

lemma match_alts_Some:
  "match_alts ws r = Some g \<Longrightarrow>
   \<exists>w \<in> set ws. g = take (length w) r \<and> list_all2 ci_match w g"
  by (induction ws) (auto split: if_splits)

lemma re_search_Some:
  "re_search u = Some g \<Longrightarrow>
   \<exists>w \<in> set ext_words. list_all2 ci_match w g \<and> set g \<subseteq> set u"
proof (induction u)
  case Nil
  then show ?case by simp
next
  case (Cons c r)
  show ?case
  proof (cases "c = DOT \<and> match_alts ext_words r = Some g")
    case True
    with match_alts_Some obtain w where "w \<in> set ext_words" "g = take (length w) r"
      "list_all2 ci_match w g" by blast
    moreover from this have "set g \<subseteq> set (c # r)"
      by (metis set_take_subset set_subset_Cons subset_trans)
    ultimately show ?thesis by blast
  next
    case False
    with Cons.prems have "re_search r = Some g"
      by (auto split: if_splits option.splits)
    with Cons.IH show ?thesis by auto
  qed
qed

lemma match_alts_whole:
  assumes "\<forall>c \<in> set g. c \<noteq> QMARK \<and> c \<noteq> NEWLINE"
    and "w \<in> set ws" and "list_all2 ci_match w g"
  shows "match_alts ws g = Some g"
  using assms(2)
proof (induction ws)
  case Nil
  then show ?case by simp
next
  case (Cons w0 ws)
  let ?C = "length w0 \<le> length g \<and> list_all2 ci_match w0 (take (length w0) g)
      \<and> query_or_end (drop (length w0) g)"
  show ?case
  proof (cases ?C)
    case True
    have "drop (length w0) g = []"
    proof (cases "drop (length w0) g")
      case (Cons a as)
      then have "a \<in> set g" by (metis in_set_dropD list.set_intros(1))
      with assms(1) have "a \<noteq> QMARK \<and> a \<noteq> NEWLINE" by blast
      with True Cons show ?thesis by (simp add: query_or_end_def)
    qed simp
    with True have "take (length w0) g = g" by simp
    with True show ?thesis by simp
  next
    case False
    have "w \<noteq> w0"
    proof
      assume "w = w0"
      with assms(3) have "length w0 = length g" by (simp add: list_all2_lengthD)
      with assms(3) \<open>w = w0\<close> have ?C by (simp add: query_or_end_def)
      with False show False by blast
    qed
    with Cons have "match_alts ws g = Some g" by simp
    moreover from False have "match_alts (w0 # ws) g = match_alts ws g"
      by (simp only: match_alts.simps if_False)
    ultimately show ?thesis by simp
  qed
qed

lemma re_search_skip:
  "DOT \<notin> set p \<Longrightarrow>
   re_search (p @ DOT # r)
     = (case match_alts ext_words r of Some g \<Rightarrow> Some g | None \<Rightarrow> re_search r)"
  by (induction p) auto

lemma local_path_no_dot: "DOT \<notin> set (ascii ''assets/logos/'' @ sanitize_str L t)"
proof -
  have "DOT \<notin> set (sanitize_str L t)"
    using sanitize_str_set [of DOT L t] by (auto simp: is_alnum_def)
  then show ?thesis by (simp add: ascii_def)
qed

lemma url_extension_stable:
  assumes "\<forall>g. re_search u = Some g \<longrightarrow> 0x130 \<notin> set g" and "DOT \<notin> set p"
  shows "url_extension L (p @ url_extension L u) = url_extension L u"
proof (cases "re_search u")
  case None
  then have e: "url_extension L u = DOT # ascii ''png''"
    by (simp add: url_extension_def ascii_def)
  have "match_alts ext_words (ascii ''png'') = Some (ascii ''png'')"
    by (simp add: str_defs)
  with assms(2) have "re_search (p @ DOT # ascii ''png'') = Some (ascii ''png'')"
    by (simp add: re_search_skip)
  moreover have "str_lower L (ascii ''png'') = ascii ''png''"
    by (simp add: str_defs)
  ultimately show ?thesis by (simp add: e) (simp add: url_extension_def)
next
  case (Some g)
  then have e: "url_extension L u = DOT # str_lower L g"
    by (simp add: url_extension_def)
  from re_search_Some [OF Some] obtain w where
    w: "w \<in> set ext_words" "list_all2 ci_match w g" "set g \<subseteq> set u" by blast
  from w(1) ext_words_letters have letters: "\<forall>l \<in> set w. 97 \<le> l \<and> l \<le> 122" by blast
  from Some assms(1) have "0x130 \<notin> set g" by blast
  from word_lower [OF w(2) letters this, of L "[]"]
  have m: "list_all2 ci_match w (str_lower L g)"
    and st: "str_lower L (str_lower L g) = str_lower L g"
    by (auto simp: str_lower_def)
  from list_all2_letters [OF m letters]
  have "\<forall>c \<in> set (str_lower L g). c \<noteq> QMARK \<and> c \<noteq> NEWLINE" by blast
  from match_alts_whole [OF this w(1) m]
  have "match_alts ext_words (str_lower L g) = Some (str_lower L g)" .
  with assms(2) have "re_search (p @ DOT # str_lower L g) = Some (str_lower L g)"
    by (simp add: re_search_skip)
  with st show ?thesis by (simp add: e) (simp add: url_extension_def)
qed

lemma update_chapter_again:
  assumes "update_chapter L logos x n = Inr (x', n')"
    and "\<forall>u \<in> set (chapter_logo_url x). \<forall>g. re_search u = Some g \<longrightarrow> 0x130 \<notin> set g"
  shows "update_chapter L logos x' n = Inr (x', n')"
proof -
  from update_chapter_cases [OF assms(1)] obtain ch where x: "x = JObj ch"
    and c: "(\<not> truthy (dict_get ch k_logoUrl (JStr [])) \<and> x' = x
          \<and> n' = n\<lparr>skipped_count := skipped_count n + 1\<rparr>)
       \<or> (\<exists>t u. dict_get ch k_title (JStr []) = JStr t
             \<and> map_of ch k_logoUrl = Some (JStr u) \<and> u \<noteq> []
             \<and> ((logos (sanitize_str L t @ url_extension L u) \<noteq> None
                   \<and> x' = JObj (AList.update k_logoUrl
                        (JStr (local_path (sanitize_str L t @ url_extension L u))) ch)
                   \<and> n' = n\<lparr>updated_count := updated_count n + 1\<rparr>)
                \<or> (logos (sanitize_str L t @ url_extension L u) = None \<and> x' = x
                   \<and> n' = n\<lparr>missing_count := missing_count n + 1\<rparr>)))"
    by blast
  show ?thesis
  proof (cases "x' = x")
    case True
    with assms(1) show ?thesis by simp
  next
    case False
    with c obtain t u where h: "dict_get ch k_title (JStr []) = JStr t"
      "map_of ch k_logoUrl = Some (JStr u)" "u \<noteq> []"
      "logos (sanitize_str L t @ url_extension L u) \<noteq> None"
      "x' = JObj (AList.update k_logoUrl
                        (JStr (local_path (sanitize_str L t @ url_extension L u))) ch)"
      "n' = n\<lparr>updated_count := updated_count n + 1\<rparr>"
      by blast
    let ?e = "sanitize_str L t @ url_extension L u"
    let ?ch' = "AList.update k_logoUrl (JStr (local_path ?e)) ch"
    from h(2) x assms(2) have no_I: "\<forall>g. re_search u = Some g \<longrightarrow> 0x130 \<notin> set g"
      by (simp add: chapter_logo_url_def)
    have keys: "k_title \<noteq> k_logoUrl"
      by (simp add: k_title_def k_logoUrl_def ascii_def)
    with h(1) have t': "dict_get ?ch' k_title (JStr []) = JStr t"
      by (simp add: dict_get_def update_conv')
    have u': "dict_get ?ch' k_logoUrl (JStr []) = JStr (local_path ?e)"
      by (simp add: dict_get_def update_conv')
    have ne: "local_path ?e \<noteq> []"
      by (simp add: local_path_def ascii_def)
    have "url_extension L (local_path ?e)
        = url_extension L ((ascii ''assets/logos/'' @ sanitize_str L t) @ url_extension L u)"
      by (simp add: local_path_def)
    also have "\<dots> = url_extension L u"
      using no_I local_path_no_dot by (rule url_extension_stable)
    finally have same: "sanitize_str L t @ url_extension L (local_path ?e) = ?e" by simp
    have "AList.update k_logoUrl (JStr (local_path ?e)) ?ch' = ?ch'"
      by (simp add: update_last)
    with update_chapter_string [OF t' u' ne, of L logos n] same h(4,5,6)
    show ?thesis by (simp add: Let_def)
  qed
qed

lemma update_chapters_again:
  "update_chapters L logos xs n = Inr (xs', n') \<Longrightarrow>
   \<forall>x \<in> set xs. \<forall>u \<in> set (chapter_logo_url x).
      \<forall>g. re_search u = Some g \<longrightarrow> 0x130 \<notin> set g \<Longrightarrow>
   update_chapters L logos xs' n = Inr (xs', n')"
proof (induction xs arbitrary: n xs' n')
  case Nil
  then show ?case by simp
next
  case (Cons x xs)
  from Cons.prems(1) obtain x' m rest' where
    s: "update_chapter L logos x n = Inr (x', m)"
       "update_chapters L logos xs m = Inr (rest', n')" "xs' = x' # rest'"
    by (auto split: sum.splits prod.splits)
  from Cons.prems(2)
  have "\<forall>u \<in> set (chapter_logo_url x). \<forall>g. re_search u = Some g \<longrightarrow> 0x130 \<notin> set g"
    by simp
  from update_chapter_again [OF s(1) this]
  have 1: "update_chapter L logos x' n = Inr (x', m)" .
  from Cons.IH [OF s(2)] Cons.prems(2)
  have 2: "update_chapters L logos rest' m = Inr (rest', n')" by simp
  from 1 2 s(3) show ?case by simp
qed

text \<open>
  C9, as the code has it. When no extension token that the search matches in a
  \<open>logoUrl\<close> of the document contains U+0130, a second run with the same inventory
  writes the document of the first run again, with the same counters: the extension
  resolved from the local path is the extension resolved from the URL. U+0130 elsewhere
  in a URL does no harm. With U+0130 in the matched token the first run resolves \<open>i\<close>
  followed by U+0307, which the pattern does not match in the second run.
\<close>

theorem second_run_same:
  assumes "update_config L logos config = Inr (config', n)"
    and "\<forall>u \<in> set (logo_urls config). \<forall>g. re_search u = Some g \<longrightarrow> 0x130 \<notin> set g"
  shows "update_config L logos config' = Inr (config', n)"
proof -
  from assms(1) obtain cfg chapters items items' where
    h: "config = JObj cfg" "map_of cfg k_chapters = Some chapters"
       "py_iter chapters = Inr items"
       "update_chapters L logos items zero_counters = Inr (items', n)"
       "config' = JObj (AList.update k_chapters (store_chapters chapters items') cfg)"
    by (auto simp: update_config_def split: json.splits option.splits sum.splits prod.splits)
  have look: "map_of (AList.update k_chapters (store_chapters chapters items') cfg) k_chapters
      = Some (store_chapters chapters items')"
    by (simp add: update_conv')
  have again: "py_iter (store_chapters chapters items') = Inr items'
      \<and> update_chapters L logos items' zero_counters = Inr (items', n)
      \<and> store_chapters (store_chapters chapters items') items' = store_chapters chapters items'"
  proof (cases chapters)
    case (JArr xs)
    with h have items: "items = config_chapters config"
      by (simp add: config_chapters_def)
    from assms(2) have "\<forall>x \<in> set (config_chapters config).
        \<forall>u \<in> set (chapter_logo_url x). \<forall>g. re_search u = Some g \<longrightarrow> 0x130 \<notin> set g"
      by (auto simp: logo_urls_def)
    with items update_chapters_again [OF h(4)]
    have "update_chapters L logos items' zero_counters = Inr (items', n)" by simp
    with JArr show ?thesis by simp
  next
    case (JObj kvs)
    with h have "kvs = []" using update_chapters_strings [of L logos fst kvs] by auto
    with h JObj show ?thesis by auto
  next
    case (JStr s)
    with h have "s = []" using update_chapters_strings [of L logos "\<lambda>c. [c]" s] by auto
    with h JStr show ?thesis by auto
  qed (use h in simp_all)
  with h(5) look show ?thesis
    by (simp add: update_config_def update_last)
qed

theorem second_run_same_witness:
  "update_config plain_table host_logos host_config = Inr (host_config_updated, one_updated)
   \<and> logo_urls host_config = [host_url]
   \<and> 0x130 \<in> set host_url
   \<and> re_search host_url = Some (ascii ''png'')
   \<and> 0x130 \<notin> set (ascii ''png'')
   \<and> update_config plain_table host_logos host_config_updated
     = Inr (host_config_updated, one_updated)"
proof -
  have run: "update_config plain_table host_logos host_config
      = Inr (host_config_updated, one_updated)"
    by (auto simp add: update_config_def host_config_def host_config_updated_def host_url_def
        host_logos_def one_updated_def zero_counters_def run_defs str_defs)
  have urls: "logo_urls host_config = [host_url]"
    by (simp add: logo_urls_def config_chapters_def chapter_logo_url_def host_config_def
        k_chapters_def k_logoUrl_def ascii_def)
  have found: "re_search host_url = Some (ascii ''png'')"
    by (simp add: host_url_def str_defs)
  have inside: "0x130 \<in> set host_url"
    by (simp add: host_url_def)
  have clean: "0x130 \<notin> set (ascii ''png'')"
    by (simp add: ascii_def)
  from found clean
  have "\<forall>u \<in> set (logo_urls host_config). \<forall>g. re_search u = Some g \<longrightarrow> 0x130 \<notin> set g"
    unfolding urls by simp
  from second_run_same [OF run this] run urls inside found clean
  show ?thesis by blast
qed

text \<open>
  C9 as stated fails: with the URL \<open>http://a/b.g\<close>U+0130\<open>f\<close> and the logos
  \<open>x.gi\<close>U+0307\<open>f\<close> and \<open>x.png\<close> both in the inventory, the first run writes the
  path of the former and the second run the path of the latter.
\<close>

theorem second_run_differs:
  "update_config plain_table dotted_logos dotted_config = Inr (dotted_config_once, one_updated)
   \<and> update_config plain_table dotted_logos dotted_config_once
       = Inr (dotted_config_twice, one_updated)
   \<and> dotted_config_twice \<noteq> dotted_config_once"
  by (auto simp add: update_config_def dotted_config_def dotted_config_once_def
      dotted_config_twice_def dotted_logos_def one_updated_def zero_counters_def
      run_defs str_defs)

end
